theory Spec2Isabelle
  imports
    Main
    "HOL-Library.Word"
    "HOL-Library.Multiset"
    "HOL-Library.Char_ord"
    "HOL-Library.List_Lexorder"
begin

section \<open>Status conditions and object references of achilles-sdk-api\<close>

text \<open>
  A shallow embedding of package \<open>api\<close>: the condition model (\<open>Condition\<close>,
  \<open>ConditionedStatus\<close> and the condition constructors) and the reference model
  (\<open>ObjectRef\<close>, \<open>TypedObjectRef\<close>, \<open>ClusterObjectRef\<close>).

  Go strings are byte sequences and are modelled as \<open>string\<close>; the order \<open><\<close> on them
  is the bytewise lexicographic order, which is the order of \<open>List_Lexorder\<close> over
  \<open>Char_ord\<close>. \<open>int64\<close> is \<open>64 word\<close>. A \<open>metav1.Time\<close> is never inspected by this
  package (it is only stored, copied and left out of comparisons), so it is represented
  by an integer time stamp whose zero value is \<open>0\<close>. The wall clock read by
  \<open>metav1.Now()\<close> is an argument \<open>now\<close> of every constructor.
\<close>

subsection \<open>Condition\<close>

type_synonym ConditionType = string
type_synonym ConditionStatus = string
type_synonym ConditionReason = string
type_synonym Time = int

definition TypeReady :: ConditionType where
  "TypeReady = ''Ready''"

definition TypeSynced :: ConditionType where
  "TypeSynced = ''Synced''"

definition TypeReferencesValid :: string where
  "TypeReferencesValid = ''ReferencesValid''"

definition ReasonReferencesExist :: string where
  "ReasonReferencesExist = ''ReferencedObjectsExist''"

definition ReasonAvailable :: ConditionReason where
  "ReasonAvailable = ''Available''"

definition ReasonUnavailable :: ConditionReason where
  "ReasonUnavailable = ''Unavailable''"

definition ReasonCreating :: ConditionReason where
  "ReasonCreating = ''Creating''"

definition ReasonDeleting :: ConditionReason where
  "ReasonDeleting = ''Deleting''"

definition ReasonReconcileSuccess :: ConditionReason where
  "ReasonReconcileSuccess = ''ReconcileSuccess''"

definition ReasonReconcileError :: ConditionReason where
  "ReasonReconcileError = ''ReconcileError''"

text \<open>
  Modelled from the spec: the three constants of \<open>corev1.ConditionStatus\<close> (package
  \<open>k8s.io/api/core/v1\<close>, not part of the sources). The spec calls the status ternary,
  True / False / Unknown; the constants are the strings of those names.
\<close>

definition ConditionTrue :: ConditionStatus where
  "ConditionTrue = ''True''"

definition ConditionFalse :: ConditionStatus where
  "ConditionFalse = ''False''"

definition ConditionUnknown :: ConditionStatus where
  "ConditionUnknown = ''Unknown''"

record Condition =
  Type :: ConditionType
  Status :: ConditionStatus
  ObservedGeneration :: "64 word"
  LastTransitionTime :: Time
  Reason :: ConditionReason
  Message :: string

text \<open>\<open>Condition{}\<close>, the zero value of the struct.\<close>

definition Condition_zero :: Condition where
  "Condition_zero =
     \<lparr>Type = [], Status = [], ObservedGeneration = 0, LastTransitionTime = 0,
      Reason = [], Message = []\<rparr>"

definition Condition_Equal :: "Condition \<Rightarrow> Condition \<Rightarrow> bool" where
  "Condition_Equal c other \<longleftrightarrow>
     Type c = Type other \<and>
     Status c = Status other \<and>
     Reason c = Reason other \<and>
     Message c = Message other \<and>
     ObservedGeneration c = ObservedGeneration other"

definition WithMessage :: "Condition \<Rightarrow> string \<Rightarrow> Condition" where
  "WithMessage c msg = c\<lparr>Message := msg\<rparr>"

text \<open>
  The receiver of \<open>WithMessage\<close> is passed by value. The call, with the caller's
  condition after it beside the result: the assignment goes to the callee's copy.
\<close>

definition WithMessage_call :: "Condition \<Rightarrow> string \<Rightarrow> Condition \<times> Condition" where
  "WithMessage_call c msg = (let c' = c; c' = c'\<lparr>Message := msg\<rparr> in (c, c'))"

definition IsEmpty :: "Condition \<Rightarrow> bool" where
  "IsEmpty c \<longleftrightarrow> Type c = [] \<and> Status c = [] \<and> Reason c = [] \<and> Message c = []"

subsection \<open>ConditionedStatus\<close>

text \<open>
  The slice \<open>Conditions\<close> is a list; a nil slice and an empty slice are both \<open>[]\<close>
  (the code only takes \<open>len\<close>, ranges and appends). \<open>GetCondition\<close> and
  \<open>SetConditions\<close> dereference their receiver, so they are modelled on a status value;
  \<open>Equal\<close> tests its pointers for nil, so there a pointer is an \<open>option\<close>.
\<close>

record ConditionedStatus =
  Conditions :: "Condition list"

fun GetCondition_range :: "Condition list \<Rightarrow> ConditionType \<Rightarrow> Condition" where
  "GetCondition_range [] ct =
     \<lparr>Type = ct, Status = ConditionUnknown, ObservedGeneration = 0,
      LastTransitionTime = 0, Reason = [], Message = []\<rparr>"
| "GetCondition_range (c # cs) ct = (if Type c = ct then c else GetCondition_range cs ct)"

definition GetCondition :: "ConditionedStatus \<Rightarrow> ConditionType \<Rightarrow> Condition" where
  "GetCondition s ct = GetCondition_range (Conditions s) ct"

text \<open>
  The inner loop of \<open>SetConditions\<close>, \<open>for i, existing := range s.Conditions\<close>, from
  index \<open>i\<close> on: the state is the slice and the flag \<open>exists\<close>. The assignment
  \<open>s.Conditions[i] = new\<close> writes the position the loop has just read.
\<close>

function SetConditions_range ::
  "Condition \<Rightarrow> nat \<Rightarrow> Condition list \<Rightarrow> bool \<Rightarrow> Condition list \<times> bool" where
  "SetConditions_range new i conds exists =
     (if i < length conds then
        (let existing = conds ! i in
         if Type existing \<noteq> Type new then SetConditions_range new (i + 1) conds exists
         else if Condition_Equal existing new then SetConditions_range new (i + 1) conds True
         else SetConditions_range new (i + 1) (conds[i := new]) True)
      else (conds, exists))"
  by pat_completeness auto
termination
  by (relation "measure (\<lambda>(new, i, conds, exists). length conds - i)") auto

declare SetConditions_range.simps [simp del]

text \<open>One round of the outer loop: the scan, then the append when nothing matched.\<close>

definition SetConditions_one :: "ConditionedStatus \<Rightarrow> Condition \<Rightarrow> ConditionedStatus" where
  "SetConditions_one s new =
     (case SetConditions_range new 0 (Conditions s) False of
        (conds, exists) \<Rightarrow>
          if \<not> exists then s\<lparr>Conditions := conds @ [new]\<rparr> else s\<lparr>Conditions := conds\<rparr>)"

text \<open>
  \<open>SetConditions\<close> on values: the status that results when the rounds of the outer loop
  meet the conditions \<open>c\<close>, one after the other. This is the call itself whenever the
  argument slice keeps its elements while the call runs: for an argument list written
  out at the call, for a single argument (it is copied into \<open>new\<close> before anything is
  written), and for a slice that shares no storage with \<open>s.Conditions\<close>. A slice passed
  as \<open>xs...\<close> is not copied; the call on slices in memory, where the writes of one round
  can reach an argument not yet read, is \<open>SetConditions_mem\<close> below.
\<close>

fun SetConditions :: "ConditionedStatus \<Rightarrow> Condition list \<Rightarrow> ConditionedStatus" where
  "SetConditions s [] = s"
| "SetConditions s (new # c) = SetConditions (SetConditions_one s new) c"

definition NewConditionedStatus :: "Condition list \<Rightarrow> ConditionedStatus" where
  "NewConditionedStatus c = SetConditions \<lparr>Conditions = []\<rparr> c"

subsection \<open>SetConditions on slices in memory\<close>

text \<open>
  A Go slice is a window on a backing array: the address of its first element, its
  length and its capacity. Memory maps addresses to conditions; \<open>brk\<close> is the first
  address that no array occupies yet, where the next array is allocated.
\<close>

record slice =
  ptr :: nat
  len :: nat
  cap :: nat

record heap =
  mem :: "nat \<Rightarrow> Condition"
  brk :: nat

text \<open>The elements a slice shows in a memory.\<close>

definition load :: "(nat \<Rightarrow> Condition) \<Rightarrow> slice \<Rightarrow> Condition list" where
  "load m sl = map (\<lambda>i. m (ptr sl + i)) [0..<len sl]"

text \<open>
  The inner loop again, now on memory. \<open>range s.Conditions\<close> fixes the slice header
  \<open>conds\<close> once; each round reads the element at \<open>i\<close> from memory, and
  \<open>s.Conditions[i] = new\<close> writes to that address.
\<close>

function SetConditions_range_mem ::
  "Condition \<Rightarrow> slice \<Rightarrow> nat \<Rightarrow> (nat \<Rightarrow> Condition) \<Rightarrow> bool \<Rightarrow> (nat \<Rightarrow> Condition) \<times> bool" where
  "SetConditions_range_mem new conds i m exists =
     (if i < len conds then
        (let existing = m (ptr conds + i) in
         if Type existing \<noteq> Type new then SetConditions_range_mem new conds (i + 1) m exists
         else if Condition_Equal existing new then
           SetConditions_range_mem new conds (i + 1) m True
         else SetConditions_range_mem new conds (i + 1) (m(ptr conds + i := new)) True)
      else (m, exists))"
  by pat_completeness auto
termination
  by (relation "measure (\<lambda>(new, conds, i, m, exists). len conds - i)") auto

declare SetConditions_range_mem.simps [simp del]

text \<open>
  \<open>append(s.Conditions, new)\<close>. With spare capacity the element is written behind the
  last one, into the same array. Otherwise a new array is allocated at \<open>brk\<close>, the
  elements are copied and the new one follows them. Go leaves the capacity of the new
  array open beyond its being large enough: \<open>slack\<close> gives the room left over, and the
  theorems hold for every \<open>slack\<close>.
\<close>

definition append_mem :: "(nat \<Rightarrow> nat) \<Rightarrow> heap \<Rightarrow> slice \<Rightarrow> Condition \<Rightarrow> heap \<times> slice" where
  "append_mem slack h sl x =
     (if len sl < cap sl then
        (h\<lparr>mem := (mem h)(ptr sl + len sl := x)\<rparr>, sl\<lparr>len := len sl + 1\<rparr>)
      else
        (let newcap = len sl + 1 + slack (len sl + 1);
             p = brk h;
             copied = (\<lambda>a. if p \<le> a \<and> a < p + len sl then mem h (ptr sl + (a - p)) else mem h a)
         in (\<lparr>mem = copied(p + len sl := x), brk = p + newcap\<rparr>,
             \<lparr>ptr = p, len = len sl + 1, cap = newcap\<rparr>)))"

text \<open>One round of the outer loop on memory; \<open>conds\<close> is the field \<open>s.Conditions\<close>.\<close>

definition SetConditions_round ::
  "(nat \<Rightarrow> nat) \<Rightarrow> heap \<Rightarrow> slice \<Rightarrow> Condition \<Rightarrow> heap \<times> slice" where
  "SetConditions_round slack h conds new =
     (case SetConditions_range_mem new conds 0 (mem h) False of
        (m, exists) \<Rightarrow>
          if \<not> exists then append_mem slack (h\<lparr>mem := m\<rparr>) conds new
          else (h\<lparr>mem := m\<rparr>, conds))"

text \<open>
  The outer loop \<open>for _, new := range c\<close> from argument \<open>k\<close> on. The header of \<open>c\<close> is
  fixed; the element \<open>k\<close> is read from memory when its round begins, so it is what
  earlier rounds have left at that address.
\<close>

function SetConditions_mem_from ::
  "(nat \<Rightarrow> nat) \<Rightarrow> slice \<Rightarrow> nat \<Rightarrow> heap \<Rightarrow> slice \<Rightarrow> heap \<times> slice" where
  "SetConditions_mem_from slack c k h conds =
     (if k < len c then
        (let new = mem h (ptr c + k) in
         case SetConditions_round slack h conds new of
           (h', conds') \<Rightarrow> SetConditions_mem_from slack c (k + 1) h' conds')
      else (h, conds))"
  by pat_completeness auto
termination
  by (relation "measure (\<lambda>(slack, c, k, h, conds). len c - k)") auto

declare SetConditions_mem_from.simps [simp del]

definition SetConditions_mem ::
  "(nat \<Rightarrow> nat) \<Rightarrow> heap \<Rightarrow> slice \<Rightarrow> slice \<Rightarrow> heap \<times> slice" where
  "SetConditions_mem slack h conds c = SetConditions_mem_from slack c 0 h conds"

text \<open>The conditions of the status when the call has returned.\<close>

definition SetConditions_result ::
  "(nat \<Rightarrow> nat) \<Rightarrow> heap \<Rightarrow> slice \<Rightarrow> slice \<Rightarrow> Condition list" where
  "SetConditions_result slack h conds c =
     (case SetConditions_mem slack h conds c of (h', conds') \<Rightarrow> load (mem h') conds')"

text \<open>
  A slice lies in allocated memory. The argument slice \<open>c\<close> shares no storage with
  \<open>s.Conditions\<close>: its elements lie outside the array of \<open>conds\<close>, up to the capacity.
\<close>

definition slice_ok :: "heap \<Rightarrow> slice \<Rightarrow> bool" where
  "slice_ok h sl \<longleftrightarrow> len sl \<le> cap sl \<and> ptr sl + cap sl \<le> brk h"

definition slices_apart :: "heap \<Rightarrow> slice \<Rightarrow> slice \<Rightarrow> bool" where
  "slices_apart h conds c \<longleftrightarrow>
     slice_ok h conds \<and> ptr c + len c \<le> brk h \<and>
     (ptr c + len c \<le> ptr conds \<or> ptr conds + cap conds \<le> ptr c)"

subsection \<open>ConditionedStatus.Equal\<close>

text \<open>
  \<open>sort.Slice\<close> belongs to the Go standard library and is not part of the sources. It
  sorts in place, it is not stable, and which algorithm it runs depends on the length
  of the slice. The model of \<open>Equal\<close> therefore takes it as a parameter \<open>sort_Slice\<close>,
  a function of the comparison and of the slice, and the theorems assume of it what its
  documentation promises: the result is a rearrangement of the slice in which no element
  is \<open>less\<close> than an earlier one.
\<close>

definition sorts :: "(('a \<Rightarrow> 'a \<Rightarrow> bool) \<Rightarrow> 'a list \<Rightarrow> 'a list) \<Rightarrow> ('a \<Rightarrow> 'a \<Rightarrow> bool) \<Rightarrow> bool" where
  "sorts sort_Slice lessf \<longleftrightarrow>
     (\<forall>xs. mset (sort_Slice lessf xs) = mset xs \<and>
           sorted_wrt (\<lambda>a b. \<not> lessf b a) (sort_Slice lessf xs))"

text \<open>
  One function that meets this: the insertion sort that \<open>sort.Slice\<close> runs on a slice of
  at most twelve elements. For \<open>i\<close> from the second element on, the element at \<open>i\<close> is
  swapped with its left neighbour while \<open>less(j, j - 1)\<close> holds; \<open>sink\<close> is that inner
  loop on the part before \<open>i\<close>, nearest neighbour first.
\<close>

fun sink :: "('a \<Rightarrow> 'a \<Rightarrow> bool) \<Rightarrow> 'a \<Rightarrow> 'a list \<Rightarrow> 'a list" where
  "sink lessf x [] = [x]"
| "sink lessf x (y # ys) = (if lessf x y then y # sink lessf x ys else x # y # ys)"

definition insertionSort :: "('a \<Rightarrow> 'a \<Rightarrow> bool) \<Rightarrow> 'a list \<Rightarrow> 'a list" where
  "insertionSort lessf xs = rev (foldl (\<lambda>front x. sink lessf x front) [] xs)"

text \<open>
  The final loop \<open>for i := range sc\<close>, which returns false at the first pair that is not
  \<open>Equal\<close>. The lengths have been compared before, so \<open>oc[i]\<close> is always in range; the
  model gives false where \<open>oc\<close> would be too short.
\<close>

fun Equal_pairs :: "Condition list \<Rightarrow> Condition list \<Rightarrow> bool" where
  "Equal_pairs [] oc = True"
| "Equal_pairs (x # sc) [] = False"
| "Equal_pairs (x # sc) (y # oc) = (if \<not> Condition_Equal x y then False else Equal_pairs sc oc)"

text \<open>
  The call \<open>s.Equal(other)\<close> with its effect on the two statuses: the result, and the
  statuses behind the two pointers when the call returns. \<open>sc\<close> and \<open>oc\<close> are the fresh
  slices made by \<open>make\<close> and filled by \<open>copy\<close>; \<open>sort.Slice\<close> rearranges those.
\<close>

definition ConditionedStatus_Equal_call ::
  "((Condition \<Rightarrow> Condition \<Rightarrow> bool) \<Rightarrow> Condition list \<Rightarrow> Condition list) \<Rightarrow>
     ConditionedStatus option \<Rightarrow> ConditionedStatus option \<Rightarrow>
     bool \<times> ConditionedStatus option \<times> ConditionedStatus option" where
  "ConditionedStatus_Equal_call sort_Slice s other =
     (case (s, other) of
        (None, _) \<Rightarrow> (s = None \<and> other = None, s, other)
      | (_, None) \<Rightarrow> (s = None \<and> other = None, s, other)
      | (Some sv, Some ov) \<Rightarrow>
          if length (Conditions ov) \<noteq> length (Conditions sv) then (False, s, other)
          else
            (let sc = Conditions sv;
                 oc = Conditions ov;
                 sc = sort_Slice (\<lambda>a b. Type a < Type b) sc;
                 oc = sort_Slice (\<lambda>a b. Type a < Type b) oc
             in (Equal_pairs sc oc, s, other)))"

definition ConditionedStatus_Equal ::
  "((Condition \<Rightarrow> Condition \<Rightarrow> bool) \<Rightarrow> Condition list \<Rightarrow> Condition list) \<Rightarrow>
     ConditionedStatus option \<Rightarrow> ConditionedStatus option \<Rightarrow> bool" where
  "ConditionedStatus_Equal sort_Slice s other =
     fst (ConditionedStatus_Equal_call sort_Slice s other)"

text \<open>The invariant of the type: at most one condition of each type.\<close>

definition one_per_Type :: "ConditionedStatus \<Rightarrow> bool" where
  "one_per_Type s \<longleftrightarrow> distinct (map Type (Conditions s))"

text \<open>A condition with its time stamp blanked: what \<open>Condition.Equal\<close> compares.\<close>

definition untimed :: "Condition \<Rightarrow> Condition" where
  "untimed c = c\<lparr>LastTransitionTime := 0\<rparr>"

text \<open>
  What one round of the inner loop of \<open>SetConditions\<close> does to one stored entry, and
  what a whole argument list does to it. These two are not functions of the package;
  the lemmas below relate the loops to them.
\<close>

definition settle :: "Condition \<Rightarrow> Condition \<Rightarrow> Condition" where
  "settle new existing =
     (if Type existing = Type new \<and> \<not> Condition_Equal existing new then new else existing)"

fun settle_all :: "Condition list \<Rightarrow> Condition \<Rightarrow> Condition" where
  "settle_all [] e = e"
| "settle_all (new # c) e = settle_all c (settle new e)"

subsection \<open>Condition constructors\<close>

definition Creating :: "Time \<Rightarrow> Condition" where
  "Creating now =
     \<lparr>Type = TypeReady, Status = ConditionFalse, ObservedGeneration = 0,
      LastTransitionTime = now, Reason = ReasonCreating, Message = []\<rparr>"

definition Deleting :: "Time \<Rightarrow> Condition" where
  "Deleting now =
     \<lparr>Type = TypeReady, Status = ConditionFalse, ObservedGeneration = 0,
      LastTransitionTime = now, Reason = ReasonDeleting, Message = []\<rparr>"

definition Available :: "Time \<Rightarrow> Condition" where
  "Available now =
     \<lparr>Type = TypeReady, Status = ConditionTrue, ObservedGeneration = 0,
      LastTransitionTime = now, Reason = ReasonAvailable, Message = []\<rparr>"

definition Unavailable :: "Time \<Rightarrow> Condition" where
  "Unavailable now =
     \<lparr>Type = TypeReady, Status = ConditionFalse, ObservedGeneration = 0,
      LastTransitionTime = now, Reason = ReasonUnavailable, Message = []\<rparr>"

definition ReconcileSuccess :: "Time \<Rightarrow> Condition" where
  "ReconcileSuccess now =
     \<lparr>Type = TypeSynced, Status = ConditionTrue, ObservedGeneration = 0,
      LastTransitionTime = now, Reason = ReasonReconcileSuccess, Message = []\<rparr>"

text \<open>
  A Go \<open>error\<close> is an interface value: nil, or a value whose method \<open>Error()\<close> yields its
  text. Calling \<open>err.Error()\<close> on the nil interface panics.
\<close>

datatype error = errors_New string

fun Error :: "error \<Rightarrow> string" where
  "Error (errors_New text) = text"

datatype panic = NilDereference

definition ReconcileError :: "Time \<Rightarrow> error option \<Rightarrow> panic + Condition" where
  "ReconcileError now err =
     (case err of
        None \<Rightarrow> Inl NilDereference
      | Some e \<Rightarrow>
          Inr \<lparr>Type = TypeSynced, Status = ConditionFalse, ObservedGeneration = 0,
               LastTransitionTime = now, Reason = ReasonReconcileError, Message = Error e\<rparr>)"

definition ReferencesValid :: "Time \<Rightarrow> Condition" where
  "ReferencesValid now =
     \<lparr>Type = TypeReferencesValid, Status = ConditionTrue, ObservedGeneration = 0,
      LastTransitionTime = now, Reason = ReasonReferencesExist,
      Message = ''All object references are valid.''\<rparr>"

subsection \<open>Object references\<close>

text \<open>
  Modelled from the spec: \<open>types.NamespacedName\<close> (which \<open>client.ObjectKey\<close> names),
  \<open>types.Separator\<close> and \<open>schema.GroupVersionKind\<close> with their \<open>String\<close> methods belong
  to \<open>k8s.io/apimachinery\<close>, not to the sources. The spec gives the coordinate as
  \<open><namespace>/<name>\<close>, the separator as the fixed \<open>/\<close> and the typed form as
  \<open>Group/Version, Kind=Kind\<close>.
\<close>

record NamespacedName =
  Namespace :: string
  Name :: string

definition Separator :: char where
  "Separator = CHR ''/''"

definition NamespacedName_String :: "NamespacedName \<Rightarrow> string" where
  "NamespacedName_String n =
     NamespacedName.Namespace n @ [Separator] @ NamespacedName.Name n"

record GroupVersionKind =
  Group :: string
  Version :: string
  Kind :: string

definition GroupVersionKind_String :: "GroupVersionKind \<Rightarrow> string" where
  "GroupVersionKind_String gvk =
     GroupVersionKind.Group gvk @ ''/'' @ GroupVersionKind.Version gvk @ '', Kind='' @
     GroupVersionKind.Kind gvk"

text \<open>
  \<open>strings.Join\<close> of the Go standard library: nothing for no element, the element
  itself for one, otherwise the first element and then the separator before every
  further one.
\<close>

fun strings_Join :: "string list \<Rightarrow> string \<Rightarrow> string" where
  "strings_Join [] sep = []"
| "strings_Join [e] sep = e"
| "strings_Join (e # elems) sep = e @ concat (map (\<lambda>s. sep @ s) elems)"

record ClusterObjectRef =
  Name :: string
  Namespace :: string
  ClusterID :: string

definition ClusterObjectRef_String :: "ClusterObjectRef \<Rightarrow> string" where
  "ClusterObjectRef_String o' =
     strings_Join
       [ClusterObjectRef.ClusterID o', ClusterObjectRef.Namespace o', ClusterObjectRef.Name o']
       [Separator]"

record ObjectRef =
  Name :: string
  Namespace :: string

definition ObjectRef_ObjectKey :: "ObjectRef \<Rightarrow> NamespacedName" where
  "ObjectRef_ObjectKey o' =
     \<lparr>NamespacedName.Namespace = ObjectRef.Namespace o',
      NamespacedName.Name = ObjectRef.Name o'\<rparr>"

record TypedObjectRef =
  Group :: string
  Version :: string
  Kind :: string
  Name :: string
  Namespace :: string

definition TypedObjectRef_GroupVersionKind :: "TypedObjectRef \<Rightarrow> GroupVersionKind" where
  "TypedObjectRef_GroupVersionKind t =
     \<lparr>GroupVersionKind.Group = TypedObjectRef.Group t,
      GroupVersionKind.Version = TypedObjectRef.Version t,
      GroupVersionKind.Kind = TypedObjectRef.Kind t\<rparr>"

definition TypedObjectRef_ObjectKey :: "TypedObjectRef \<Rightarrow> NamespacedName" where
  "TypedObjectRef_ObjectKey t =
     \<lparr>NamespacedName.Namespace = TypedObjectRef.Namespace t,
      NamespacedName.Name = TypedObjectRef.Name t\<rparr>"

definition ObjectKeyNotSet :: "TypedObjectRef \<Rightarrow> bool" where
  "ObjectKeyNotSet t \<longleftrightarrow> TypedObjectRef.Name t = [] \<and> TypedObjectRef.Namespace t = []"

text \<open>\<open>fmt.Sprintf("%s: %s", a, b)\<close> prints the two values by their \<open>String\<close> methods.\<close>

definition TypedObjectRef_String :: "TypedObjectRef \<Rightarrow> string" where
  "TypedObjectRef_String t =
     GroupVersionKind_String (TypedObjectRef_GroupVersionKind t) @ '': '' @
     NamespacedName_String (TypedObjectRef_ObjectKey t)"

text \<open>The loop of \<open>ReferencesInvalid\<close> that appends one coordinate per missing reference.\<close>

fun ReferencesInvalid_range :: "string list \<Rightarrow> ObjectRef list \<Rightarrow> string list" where
  "ReferencesInvalid_range missingRefStrings [] = missingRefStrings"
| "ReferencesInvalid_range missingRefStrings (ref # missingRefs) =
     ReferencesInvalid_range
       (missingRefStrings @ [NamespacedName_String (ObjectRef_ObjectKey ref)]) missingRefs"

definition ReferencesInvalid :: "Time \<Rightarrow> ConditionReason \<Rightarrow> ObjectRef list \<Rightarrow> Condition" where
  "ReferencesInvalid now reason missingRefs =
     (let missingRefStrings = ReferencesInvalid_range [] missingRefs
      in \<lparr>Type = TypeReferencesValid, Status = ConditionFalse, ObservedGeneration = 0,
          LastTransitionTime = now, Reason = reason,
          Message = ''Referenced objects are not found: '' @
                    strings_Join missingRefStrings '', ''\<rparr>)"

subsection \<open>Example values\<close>

definition ready_at :: "Time \<Rightarrow> string \<Rightarrow> Condition" where
  "ready_at t m =
     \<lparr>Type = ''Ready'', Status = ''False'', ObservedGeneration = 1,
      LastTransitionTime = t, Reason = ''Creating'', Message = m\<rparr>"

definition synced_at :: "Time \<Rightarrow> Condition" where
  "synced_at t =
     \<lparr>Type = ''Synced'', Status = ''True'', ObservedGeneration = 1,
      LastTransitionTime = t, Reason = ''ReconcileSuccess'', Message = []\<rparr>"

text \<open>
  Two memories. In \<open>shared\<close>, one array of two conditions of type Ready holds both the
  status (the second element) and the arguments (both elements). In \<open>apart\<close>, the status
  occupies the addresses 0 and 1 and three arguments the addresses 2 to 4.
\<close>

definition shared :: heap where
  "shared = \<lparr>mem = (\<lambda>a. Condition_zero)(0 := ready_at 1 ''x'', 1 := ready_at 2 ''y''), brk = 2\<rparr>"

definition apart :: heap where
  "apart =
     \<lparr>mem = (\<lambda>a. Condition_zero)
        (0 := ready_at 5 [], 1 := synced_at 7,
         2 := ready_at 9 ''x'', 3 := ready_at 10 ''y'', 4 := synced_at 8),
      brk = 5\<rparr>"

section \<open>The merge: SetConditions\<close>

lemma SetConditions_range_eq:
  "i \<le> length conds \<Longrightarrow>
   SetConditions_range new i conds ex =
     (take i conds @ map (settle new) (drop i conds),
      ex \<or> (\<exists>e \<in> set (drop i conds). Type e = Type new))"
proof (induction new i conds ex rule: SetConditions_range.induct)
  case (1 new i conds ex)
  show ?case
  proof (cases "i < length conds")
    case False
    with "1.prems" show ?thesis
      by (subst SetConditions_range.simps) simp
  next
    case True
    then have d: "drop i conds = conds ! i # drop (Suc i) conds"
      by (simp add: Cons_nth_drop_Suc)
    from True have t: "take (Suc i) conds = take i conds @ [conds ! i]"
      by (simp add: take_Suc_conv_app_nth)
    from True have u: "take (Suc i) (conds[i := new]) = take i conds @ [new]"
      by (simp add: take_Suc_conv_app_nth)
    show ?thesis
    proof (cases "Type (conds ! i) \<noteq> Type new")
      case a: True
      from "1.IH"(1)[OF True refl a] True
      have "SetConditions_range new (i + 1) conds ex =
        (take (i + 1) conds @ map (settle new) (drop (i + 1) conds),
         ex \<or> (\<exists>e \<in> set (drop (i + 1) conds). Type e = Type new))" by simp
      with True a d t show ?thesis
        by (subst SetConditions_range.simps) (simp add: settle_def)
    next
      case a: False
      show ?thesis
      proof (cases "Condition_Equal (conds ! i) new")
        case b: True
        from "1.IH"(2)[OF True refl a b] True
        have "SetConditions_range new (i + 1) conds True =
          (take (i + 1) conds @ map (settle new) (drop (i + 1) conds),
           True \<or> (\<exists>e \<in> set (drop (i + 1) conds). Type e = Type new))" by simp
        with True a b d t show ?thesis
          by (subst SetConditions_range.simps) (simp add: settle_def)
      next
        case b: False
        from "1.IH"(3)[OF True refl a b] True
        have "SetConditions_range new (i + 1) (conds[i := new]) True =
          (take (i + 1) (conds[i := new]) @ map (settle new) (drop (i + 1) (conds[i := new])),
           True \<or> (\<exists>e \<in> set (drop (i + 1) (conds[i := new])). Type e = Type new))" by simp
        with True a b d u show ?thesis
          by (subst SetConditions_range.simps) (simp add: settle_def)
      qed
    qed
  qed
qed

lemma Conditions_SetConditions_one:
  "Conditions (SetConditions_one s new) =
     (if \<exists>e \<in> set (Conditions s). Type e = Type new
      then map (settle new) (Conditions s) else Conditions s @ [new])"
proof -
  have "\<forall>e \<in> set (Conditions s). Type e \<noteq> Type new \<Longrightarrow>
      map (settle new) (Conditions s) = Conditions s"
    by (simp add: settle_def map_idI)
  then show ?thesis
    by (auto simp: SetConditions_one_def SetConditions_range_eq)
qed

lemma Type_settle: "Type (settle new e) = Type e"
  by (simp add: settle_def)

lemma Type_settle_all: "Type (settle_all c e) = Type e"
  by (induction c arbitrary: e) (simp_all add: Type_settle)

lemma settle_all_append: "settle_all (a @ b) e = settle_all b (settle_all a e)"
  by (induction a arbitrary: e) simp_all

lemma settle_other: "Type e \<noteq> Type new \<Longrightarrow> settle new e = e"
  by (simp add: settle_def)

lemma settle_all_other: "\<forall>d \<in> set c. Type d \<noteq> Type e \<Longrightarrow> settle_all c e = e"
  by (induction c arbitrary: e) (auto simp: settle_def)

lemma settle_all_pair:
  "Condition_Equal e e' \<Longrightarrow>
   (settle_all c e = e \<and> settle_all c e' = e') \<or> settle_all c e = settle_all c e'"
proof (induction c arbitrary: e e')
  case Nil
  then show ?case by simp
next
  case (Cons d c)
  show ?case
  proof (cases "Type e = Type d \<and> \<not> Condition_Equal e d")
    case True
    with Cons.prems have "settle d e = d" "settle d e' = d"
      by (auto simp: settle_def Condition_Equal_def)
    then show ?thesis by simp
  next
    case False
    with Cons.prems have "settle d e = e" "settle d e' = e'"
      by (auto simp: settle_def Condition_Equal_def)
    with Cons.IH[OF Cons.prems] show ?thesis by simp
  qed
qed

lemma settle_all_idem: "settle_all c (settle_all c e) = settle_all c e"
proof (induction c arbitrary: e)
  case Nil
  show ?case by simp
next
  case (Cons d c)
  define x where "x = settle_all c (settle d e)"
  have fx: "settle_all c x = x"
    unfolding x_def by (rule Cons.IH)
  have "settle_all c (settle d x) = x"
  proof (cases "settle d x = x")
    case True
    with fx show ?thesis by simp
  next
    case False
    then have sx: "settle d x = d" and ty: "Type x = Type d" and ne: "\<not> Condition_Equal x d"
      by (auto simp: settle_def split: if_splits)
    show ?thesis
    proof (cases "settle d e = d")
      case True
      with sx show ?thesis by (simp add: x_def)
    next
      case False
      then have se: "settle d e = e"
        by (simp add: settle_def split: if_splits)
      have "Type e = Type d"
        using ty by (simp add: x_def Type_settle_all Type_settle)
      with False have eq: "Condition_Equal e d"
        by (auto simp: settle_def split: if_splits)
      from settle_all_pair[OF eq, of c] show ?thesis
      proof
        assume "settle_all c e = e \<and> settle_all c d = d"
        with se have "x = e" by (simp add: x_def)
        with eq ne show ?thesis by simp
      next
        assume "settle_all c e = settle_all c d"
        with se sx show ?thesis by (simp add: x_def)
      qed
    qed
  qed
  then show ?case by (simp add: x_def)
qed

lemma SetConditions_one_update:
  "SetConditions_one s new = s\<lparr>Conditions := Conditions (SetConditions_one s new)\<rparr>"
  by (simp add: SetConditions_one_def split: prod.splits)

lemma SetConditions_update:
  "SetConditions s c = s\<lparr>Conditions := Conditions (SetConditions s c)\<rparr>"
proof (induction c arbitrary: s)
  case Nil
  show ?case by simp
next
  case (Cons d c)
  have "SetConditions s (d # c) = SetConditions (SetConditions_one s d) c" by simp
  also have "\<dots> = (SetConditions_one s d)\<lparr>Conditions := Conditions (SetConditions s (d # c))\<rparr>"
    using Cons.IH[of "SetConditions_one s d"] by simp
  also have "\<dots> = s\<lparr>Conditions := Conditions (SetConditions s (d # c))\<rparr>"
    by (subst SetConditions_one_update) simp
  finally show ?case .
qed

lemma SetConditions_append:
  "SetConditions s (a @ b) = SetConditions (SetConditions s a) b"
  by (induction a arbitrary: s) simp_all

lemma Conditions_one_append:
  "Conditions (SetConditions_one s new) =
     map (settle new) (Conditions s) @
     (if \<exists>e \<in> set (Conditions s). Type e = Type new then [] else [new])"
  by (auto simp: Conditions_SetConditions_one settle_def map_idI)

lemma types_SetConditions_one:
  "Type ` set (Conditions (SetConditions_one s new)) =
     insert (Type new) (Type ` set (Conditions s))"
proof (cases "\<exists>e \<in> set (Conditions s). Type e = Type new")
  case True
  then have "Type new \<in> Type ` set (Conditions s)" by (metis imageI)
  with True show ?thesis
    by (simp add: Conditions_one_append image_image Type_settle insert_absorb)
next
  case False
  then show ?thesis
    by (simp add: Conditions_one_append image_image Type_settle)
qed

lemma types_SetConditions:
  "Type ` set (Conditions (SetConditions s c)) = Type ` set (Conditions s) \<union> Type ` set c"
  by (induction c arbitrary: s) (auto simp: types_SetConditions_one)

lemma SetConditions_present:
  "Type ` set c \<subseteq> Type ` set (Conditions s) \<Longrightarrow>
   Conditions (SetConditions s c) = map (settle_all c) (Conditions s)"
proof (induction c arbitrary: s)
  case Nil
  show ?case by simp
next
  case (Cons d c)
  from Cons.prems have ex: "\<exists>e \<in> set (Conditions s). Type e = Type d"
    by auto
  then have one: "Conditions (SetConditions_one s d) = map (settle d) (Conditions s)"
    by (simp add: Conditions_SetConditions_one)
  from Cons.prems have "Type ` set c \<subseteq> Type ` set (Conditions (SetConditions_one s d))"
    by (auto simp: types_SetConditions_one)
  from Cons.IH[OF this] one show ?case by simp
qed

lemma SetConditions_front:
  "\<exists>extra. Conditions (SetConditions s c) = map (settle_all c) (Conditions s) @ extra"
proof (induction c arbitrary: s)
  case Nil
  show ?case by simp
next
  case (Cons d c)
  from Cons.IH[of "SetConditions_one s d"] obtain extra where
    "Conditions (SetConditions (SetConditions_one s d) c) =
       map (settle_all c) (Conditions (SetConditions_one s d)) @ extra" by blast
  then show ?case by (simp add: Conditions_one_append)
qed

lemma SetConditions_origin:
  "x \<in> set (Conditions (SetConditions s c)) \<Longrightarrow>
   (\<exists>e \<in> set (Conditions s). x = settle_all c e) \<or>
   (\<exists>c1 d c2. c = c1 @ d # c2 \<and> x = settle_all c2 d \<and>
      (\<forall>y \<in> set c1. Type y \<noteq> Type d) \<and> (\<forall>y \<in> set (Conditions s). Type y \<noteq> Type d))"
proof (induction c arbitrary: s)
  case Nil
  then show ?case by simp
next
  case (Cons a c)
  let ?t = "SetConditions_one s a"
  from Cons.prems have "x \<in> set (Conditions (SetConditions ?t c))" by simp
  from Cons.IH[OF this] show ?case
  proof
    assume "\<exists>e \<in> set (Conditions ?t). x = settle_all c e"
    then obtain e where e: "e \<in> set (Conditions ?t)" and x: "x = settle_all c e" by blast
    show ?thesis
    proof (cases "\<exists>e \<in> set (Conditions s). Type e = Type a")
      case True
      with e obtain e0 where "e0 \<in> set (Conditions s)" "e = settle a e0"
        by (auto simp: Conditions_one_append)
      with x show ?thesis by auto
    next
      case False
      with e have "(\<exists>e0 \<in> set (Conditions s). e = settle a e0) \<or> e = a"
        by (auto simp: Conditions_one_append)
      then show ?thesis
      proof
        assume "\<exists>e0 \<in> set (Conditions s). e = settle a e0"
        with x show ?thesis by auto
      next
        assume "e = a"
        with x False have "a # c = [] @ a # c \<and> x = settle_all c a \<and>
          (\<forall>y \<in> set []. Type y \<noteq> Type a) \<and> (\<forall>y \<in> set (Conditions s). Type y \<noteq> Type a)"
          by auto
        then show ?thesis by blast
      qed
    qed
  next
    assume "\<exists>c1 d c2. c = c1 @ d # c2 \<and> x = settle_all c2 d \<and>
      (\<forall>y \<in> set c1. Type y \<noteq> Type d) \<and> (\<forall>y \<in> set (Conditions ?t). Type y \<noteq> Type d)"
    then obtain c1 d c2 where c: "c = c1 @ d # c2" and x: "x = settle_all c2 d"
      and n1: "\<forall>y \<in> set c1. Type y \<noteq> Type d"
      and n2: "\<forall>y \<in> set (Conditions ?t). Type y \<noteq> Type d" by blast
    from n2 have "Type d \<notin> Type ` set (Conditions ?t)" by auto
    then have ad: "Type a \<noteq> Type d" and "Type d \<notin> Type ` set (Conditions s)"
      by (auto simp: types_SetConditions_one)
    then have "\<forall>y \<in> set (Conditions s). Type y \<noteq> Type d"
      by (metis imageI)
    note ad this
    with c x n1 have "a # c = (a # c1) @ d # c2 \<and> x = settle_all c2 d \<and>
      (\<forall>y \<in> set (a # c1). Type y \<noteq> Type d) \<and> (\<forall>y \<in> set (Conditions s). Type y \<noteq> Type d)"
      by simp
    then show ?thesis by blast
  qed
qed

lemma SetConditions_fixed:
  assumes "x \<in> set (Conditions (SetConditions s c))"
  shows "settle_all c x = x"
  using SetConditions_origin[OF assms]
proof
  assume "\<exists>e \<in> set (Conditions s). x = settle_all c e"
  then show ?thesis by (auto simp: settle_all_idem)
next
  assume "\<exists>c1 d c2. c = c1 @ d # c2 \<and> x = settle_all c2 d \<and>
      (\<forall>y \<in> set c1. Type y \<noteq> Type d) \<and> (\<forall>y \<in> set (Conditions s). Type y \<noteq> Type d)"
  then obtain c1 d c2 where c: "c = c1 @ d # c2" and x: "x = settle_all c2 d"
      and n1: "\<forall>y \<in> set c1. Type y \<noteq> Type d" by blast
  have dd: "settle d d = d" by (simp add: settle_def)
  then have x': "x = settle_all (d # c2) d" using x by simp
  have "Type x = Type d" by (simp add: x Type_settle_all)
  with n1 have "settle_all c1 x = x" by (simp add: settle_all_other)
  then have "settle_all c x = settle_all (d # c2) x"
    by (simp add: c settle_all_append)
  also have "\<dots> = x"
    unfolding x' by (rule settle_all_idem)
  finally show ?thesis .
qed

lemma SetConditions_idem: "SetConditions (SetConditions s c) c = SetConditions s c"
proof -
  let ?t = "SetConditions s c"
  have "Type ` set c \<subseteq> Type ` set (Conditions ?t)"
    by (simp add: types_SetConditions)
  then have "Conditions (SetConditions ?t c) = map (settle_all c) (Conditions ?t)"
    by (rule SetConditions_present)
  also have "\<dots> = Conditions ?t"
    by (rule map_idI) (rule SetConditions_fixed)
  finally have "Conditions (SetConditions ?t c) = Conditions ?t" .
  then show ?thesis
    by (subst SetConditions_update) simp
qed

lemma settle_settled:
  "Type e = Type c \<Longrightarrow> Condition_Equal (settle c e) c"
  by (simp add: settle_def Condition_Equal_def)

lemma SetConditions_settled:
  assumes "Condition_Equal c1 c2"
  shows "SetConditions (SetConditions s [c1]) [c2] = SetConditions s [c1]"
proof -
  let ?t = "SetConditions_one s c1"
  have ty: "Type c1 = Type c2"
    using assms by (simp add: Condition_Equal_def)
  have all: "\<forall>e \<in> set (Conditions ?t). Type e = Type c2 \<longrightarrow> Condition_Equal e c2"
    using assms by (auto simp: Conditions_one_append settle_def Condition_Equal_def)
  have "Type c2 \<in> Type ` set (Conditions ?t)"
    by (simp add: types_SetConditions_one ty)
  then have "\<exists>e \<in> set (Conditions ?t). Type e = Type c2" by auto
  then have "Conditions (SetConditions_one ?t c2) = map (settle c2) (Conditions ?t)"
    by (simp add: Conditions_SetConditions_one)
  also have "\<dots> = Conditions ?t"
    using all by (intro map_idI) (auto simp: settle_def)
  finally have "Conditions (SetConditions_one ?t c2) = Conditions ?t" .
  then have "SetConditions_one ?t c2 = ?t"
    by (subst SetConditions_one_update) simp
  then show ?thesis by simp
qed

text \<open>
  Claim C1. Setting one condition \<open>c\<close> on any status: when the status holds no condition
  of the type of \<open>c\<close>, \<open>c\<close> is appended; otherwise the list keeps its length, every
  entry of that type that is not \<open>Equal\<close> to \<open>c\<close> becomes \<open>c\<close>, and every other entry
  stays as it is. An entry of that type that is \<open>Equal\<close> to \<open>c\<close> is the same value
  afterwards, its \<open>LastTransitionTime\<close> included. So setting \<open>c\<close> and then a condition
  \<open>c'\<close> that is \<open>Equal\<close> to \<open>c\<close> changes nothing after the first call.
\<close>

theorem SetConditions_single:
  "((\<forall>e \<in> set (Conditions s). Type e \<noteq> Type c) \<longrightarrow>
      Conditions (SetConditions s [c]) = Conditions s @ [c]) \<and>
   ((\<exists>e \<in> set (Conditions s). Type e = Type c) \<longrightarrow>
      length (Conditions (SetConditions s [c])) = length (Conditions s) \<and>
      (\<forall>i < length (Conditions s).
         Conditions (SetConditions s [c]) ! i =
           (if Type (Conditions s ! i) = Type c \<and> \<not> Condition_Equal (Conditions s ! i) c
            then c else Conditions s ! i))) \<and>
   (\<forall>i < length (Conditions s).
      Type (Conditions s ! i) = Type c \<and> Condition_Equal (Conditions s ! i) c \<longrightarrow>
      Conditions (SetConditions s [c]) ! i = Conditions s ! i \<and>
      LastTransitionTime (Conditions (SetConditions s [c]) ! i) =
        LastTransitionTime (Conditions s ! i)) \<and>
   (Condition_Equal c c' \<longrightarrow>
      SetConditions (SetConditions s [c]) [c'] = SetConditions s [c])"
proof -
  have "\<forall>i < length (Conditions s).
      Type (Conditions s ! i) = Type c \<and> Condition_Equal (Conditions s ! i) c \<longrightarrow>
      Conditions (SetConditions s [c]) ! i = Conditions s ! i"
    by (auto simp: Conditions_one_append nth_append settle_def)
  moreover have "(\<forall>e \<in> set (Conditions s). Type e \<noteq> Type c) \<longrightarrow>
      Conditions (SetConditions s [c]) = Conditions s @ [c]"
    by (auto simp: Conditions_SetConditions_one)
  moreover have "(\<exists>e \<in> set (Conditions s). Type e = Type c) \<longrightarrow>
      length (Conditions (SetConditions s [c])) = length (Conditions s) \<and>
      (\<forall>i < length (Conditions s).
         Conditions (SetConditions s [c]) ! i =
           (if Type (Conditions s ! i) = Type c \<and> \<not> Condition_Equal (Conditions s ! i) c
            then c else Conditions s ! i))"
    by (simp add: Conditions_SetConditions_one settle_def)
  moreover have "Condition_Equal c c' \<longrightarrow>
      SetConditions (SetConditions s [c]) [c'] = SetConditions s [c]"
    using SetConditions_settled by blast
  ultimately show ?thesis by simp
qed

text \<open>
  The three cases of C1 on concrete statuses: an append, a replacement, and a
  re-assertion at a later time that keeps the time stamp 5.
\<close>

theorem SetConditions_single_witness:
  "Conditions (SetConditions \<lparr>Conditions = [ready_at 5 []]\<rparr> [synced_at 7]) =
     [ready_at 5 [], synced_at 7] \<and>
   Conditions (SetConditions \<lparr>Conditions = [ready_at 5 [], synced_at 7]\<rparr> [ready_at 9 ''x'']) ! 0
     = ready_at 9 ''x'' \<and>
   LastTransitionTime
     (Conditions (SetConditions \<lparr>Conditions = [ready_at 5 [], synced_at 7]\<rparr> [ready_at 9 []]) ! 0) = 5 \<and>
   SetConditions (SetConditions \<lparr>Conditions = []\<rparr> [ready_at 5 []]) [ready_at 9 []] =
     SetConditions \<lparr>Conditions = []\<rparr> [ready_at 5 []]"
  using SetConditions_single [of "\<lparr>Conditions = [ready_at 5 []]\<rparr>" "synced_at 7" "synced_at 7"]
    SetConditions_single [of "\<lparr>Conditions = [ready_at 5 [], synced_at 7]\<rparr>" "ready_at 9 ''x''" "synced_at 7"]
    SetConditions_single [of "\<lparr>Conditions = [ready_at 5 [], synced_at 7]\<rparr>" "ready_at 9 []" "synced_at 7"]
    SetConditions_single [of "\<lparr>Conditions = []\<rparr>" "ready_at 5 []" "ready_at 9 []"]
  by (simp add: ready_at_def synced_at_def Condition_Equal_def)

lemma one_per_Type_one: "one_per_Type s \<Longrightarrow> one_per_Type (SetConditions_one s new)"
proof (cases "\<exists>e \<in> set (Conditions s). Type e = Type new")
  case True
  assume "one_per_Type s"
  with True show ?thesis
    by (simp add: one_per_Type_def Conditions_SetConditions_one o_def Type_settle)
next
  case False
  then have "Type new \<notin> Type ` set (Conditions s)" by auto
  moreover assume "one_per_Type s"
  ultimately show ?thesis using False
    by (simp add: one_per_Type_def Conditions_SetConditions_one)
qed

lemma one_per_Type_SetConditions: "one_per_Type s \<Longrightarrow> one_per_Type (SetConditions s c)"
  by (induction c arbitrary: s) (simp_all add: one_per_Type_one)

text \<open>
  Claim C2. A status with at most one condition of each type still has at most one of
  each type after \<open>SetConditions\<close> with any argument list, repeated types included,
  and \<open>NewConditionedStatus\<close> always yields such a status.
\<close>

theorem SetConditions_one_per_Type:
  "(one_per_Type s \<longrightarrow> one_per_Type (SetConditions s c)) \<and>
   one_per_Type (NewConditionedStatus c)"
proof -
  have "one_per_Type \<lparr>Conditions = []\<rparr>"
    by (simp add: one_per_Type_def)
  then have "one_per_Type (NewConditionedStatus c)"
    unfolding NewConditionedStatus_def by (rule one_per_Type_SetConditions)
  then show ?thesis
    by (simp add: one_per_Type_SetConditions)
qed

text \<open>C2 on a status of two types and an argument list that repeats a type.\<close>

theorem SetConditions_one_per_Type_witness:
  "one_per_Type \<lparr>Conditions = [ready_at 5 [], synced_at 7]\<rparr> \<and>
   one_per_Type (SetConditions \<lparr>Conditions = [ready_at 5 [], synced_at 7]\<rparr>
     [ready_at 9 ''x'', synced_at 8, ready_at 10 ''y''])"
  using SetConditions_one_per_Type [of "\<lparr>Conditions = [ready_at 5 [], synced_at 7]\<rparr>"
     "[ready_at 9 ''x'', synced_at 8, ready_at 10 ''y'']"]
  by (simp add: one_per_Type_def ready_at_def synced_at_def)

section \<open>SetConditions on slices in memory\<close>

lemma range_split:
  "i < n \<Longrightarrow> (\<exists>j. i \<le> j \<and> j < n \<and> P j) \<longleftrightarrow> P i \<or> (\<exists>j. i + 1 \<le> j \<and> j < (n::nat) \<and> P j)"
proof
  assume "\<exists>j. i \<le> j \<and> j < n \<and> P j"
  then obtain j where j: "i \<le> j" "j < n" "P j" by blast
  show "P i \<or> (\<exists>j. i + 1 \<le> j \<and> j < n \<and> P j)"
  proof (cases "j = i")
    case True
    with j show ?thesis by simp
  next
    case False
    with j have "i + 1 \<le> j" by simp
    with j show ?thesis by blast
  qed
next
  assume i: "i < n"
  assume "P i \<or> (\<exists>j. i + 1 \<le> j \<and> j < n \<and> P j)"
  then show "\<exists>j. i \<le> j \<and> j < n \<and> P j"
  proof
    assume "P i"
    with i show ?thesis by blast
  next
    assume "\<exists>j. i + 1 \<le> j \<and> j < n \<and> P j"
    then obtain j where "i + 1 \<le> j" "j < n" "P j" by blast
    then have "i \<le> j \<and> j < n \<and> P j" by simp
    then show ?thesis by blast
  qed
qed

lemma settle_region_keep:
  fixes p i n :: nat
  assumes "settle new (m (p + i)) = m (p + i)"
  shows "(\<lambda>a. if p + (i + 1) \<le> a \<and> a < p + n then settle new (m a) else m a) =
         (\<lambda>a. if p + i \<le> a \<and> a < p + n then settle new (m a) else m a)"
proof
  fix a
  show "(if p + (i + 1) \<le> a \<and> a < p + n then settle new (m a) else m a) =
        (if p + i \<le> a \<and> a < p + n then settle new (m a) else m a)"
  proof (cases "a = p + i")
    case True
    with assms show ?thesis by simp
  next
    case False
    then have "p + (i + 1) \<le> a \<longleftrightarrow> p + i \<le> a" by auto
    then show ?thesis by simp
  qed
qed

lemma settle_region_write:
  fixes p i n :: nat
  assumes "settle new (m (p + i)) = new" and "i < n"
  shows "(\<lambda>a. if p + (i + 1) \<le> a \<and> a < p + n
              then settle new ((m(p + i := new)) a) else (m(p + i := new)) a) =
         (\<lambda>a. if p + i \<le> a \<and> a < p + n then settle new (m a) else m a)"
proof
  fix a
  show "(if p + (i + 1) \<le> a \<and> a < p + n
           then settle new ((m(p + i := new)) a) else (m(p + i := new)) a) =
        (if p + i \<le> a \<and> a < p + n then settle new (m a) else m a)"
  proof (cases "a = p + i")
    case True
    with assms show ?thesis by (simp add: settle_def)
  next
    case False
    then have "p + (i + 1) \<le> a \<longleftrightarrow> p + i \<le> a" by auto
    with False show ?thesis by simp
  qed
qed

lemma SetConditions_range_mem_eq:
  "SetConditions_range_mem new sl i m ex =
     ((\<lambda>a. if ptr sl + i \<le> a \<and> a < ptr sl + len sl then settle new (m a) else m a),
      ex \<or> (\<exists>j. i \<le> j \<and> j < len sl \<and> Type (m (ptr sl + j)) = Type new))"
proof (induction new sl i m ex rule: SetConditions_range_mem.induct)
  case (1 new sl i m ex)
  show ?case
  proof (cases "i < len sl")
    case False
    then have "SetConditions_range_mem new sl i m ex = (m, ex)"
      by (subst SetConditions_range_mem.simps) simp
    moreover from False have
      "(\<lambda>a. if ptr sl + i \<le> a \<and> a < ptr sl + len sl then settle new (m a) else m a) = m"
      by (auto simp: fun_eq_iff)
    moreover from False have
      "\<not> (\<exists>j. i \<le> j \<and> j < len sl \<and> Type (m (ptr sl + j)) = Type new)"
      by auto
    ultimately show ?thesis by auto
  next
    case True
    note sp = range_split[OF True, of "\<lambda>j. Type (m (ptr sl + j)) = Type new"]
    show ?thesis
    proof (cases "Type (m (ptr sl + i)) \<noteq> Type new")
      case a: True
      then have keep: "settle new (m (ptr sl + i)) = m (ptr sl + i)"
        by (simp add: settle_def)
      have "SetConditions_range_mem new sl i m ex = SetConditions_range_mem new sl (i + 1) m ex"
        using True a by (subst SetConditions_range_mem.simps) simp
      also note "1.IH"(1)[OF True refl a]
      finally show ?thesis
        using a
        by (simp only: sp settle_region_keep[where p="ptr sl" and i=i and m=m and new=new
              and n="len sl", OF keep]) simp
    next
      case a: False
      show ?thesis
      proof (cases "Condition_Equal (m (ptr sl + i)) new")
        case b: True
        then have keep: "settle new (m (ptr sl + i)) = m (ptr sl + i)"
          by (simp add: settle_def)
        have "SetConditions_range_mem new sl i m ex =
            SetConditions_range_mem new sl (i + 1) m True"
          using True a b by (subst SetConditions_range_mem.simps) simp
        also note "1.IH"(2)[OF True refl a b]
        finally show ?thesis
          using a
          by (simp only: sp settle_region_keep[where p="ptr sl" and i=i and m=m and new=new
                and n="len sl", OF keep]) simp
      next
        case b: False
        with a have wr: "settle new (m (ptr sl + i)) = new"
          by (simp add: settle_def)
        have "SetConditions_range_mem new sl i m ex =
            SetConditions_range_mem new sl (i + 1) (m(ptr sl + i := new)) True"
          using True a b by (subst SetConditions_range_mem.simps) simp
        also note "1.IH"(3)[OF True refl a b]
        finally show ?thesis
          using a
          by (simp only: sp settle_region_write[where p="ptr sl" and i=i and m=m and new=new
                and n="len sl", OF wr True]) simp
      qed
    qed
  qed
qed

lemma load_nth: "i < len sl \<Longrightarrow> load m sl ! i = m (ptr sl + i)"
  by (simp add: load_def)

lemma length_load: "length (load m sl) = len sl"
  by (simp add: load_def)

lemma load_cong:
  "(\<And>a. ptr sl \<le> a \<Longrightarrow> a < ptr sl + len sl \<Longrightarrow> m' a = m a) \<Longrightarrow> load m' sl = load m sl"
  by (simp add: load_def)

lemma set_load: "set (load m sl) = {m (ptr sl + j) | j. j < len sl}"
  by (auto simp: load_def)

lemma SetConditions_range_mem_load:
  assumes "SetConditions_range_mem new sl 0 m False = (m', ex)"
  shows "load m' sl = map (settle new) (load m sl)"
    and "ex \<longleftrightarrow> (\<exists>e \<in> set (load m sl). Type e = Type new)"
    and "\<And>a. \<not> (ptr sl \<le> a \<and> a < ptr sl + len sl) \<Longrightarrow> m' a = m a"
proof -
  from assms have m': "m' = (\<lambda>a. if ptr sl \<le> a \<and> a < ptr sl + len sl then settle new (m a) else m a)"
    and ex: "ex \<longleftrightarrow> (\<exists>j. j < len sl \<and> Type (m (ptr sl + j)) = Type new)"
    by (simp_all add: SetConditions_range_mem_eq)
  show "load m' sl = map (settle new) (load m sl)"
    by (simp add: m' load_def)
  show "ex \<longleftrightarrow> (\<exists>e \<in> set (load m sl). Type e = Type new)"
    unfolding ex set_load by blast
  show "\<And>a. \<not> (ptr sl \<le> a \<and> a < ptr sl + len sl) \<Longrightarrow> m' a = m a"
    by (auto simp: m')
qed

lemma append_mem_load:
  assumes ok: "slice_ok h sl" and ap: "append_mem slack h sl x = (h', sl')"
  shows "load (mem h') sl' = load (mem h) sl @ [x]"
    and "slice_ok h' sl'"
    and "brk h \<le> brk h'"
    and "\<And>a. a < brk h \<Longrightarrow> \<not> (ptr sl \<le> a \<and> a < ptr sl + cap sl) \<Longrightarrow> mem h' a = mem h a"
    and "(ptr sl' = ptr sl \<and> cap sl' = cap sl) \<or> brk h \<le> ptr sl'"
proof -
  show "load (mem h') sl' = load (mem h) sl @ [x]"
    using ok ap by (auto simp: append_mem_def slice_ok_def load_def Let_def split: if_splits)
  show "slice_ok h' sl'"
    using ok ap by (auto simp: append_mem_def slice_ok_def Let_def split: if_splits)
  show "brk h \<le> brk h'"
    using ok ap by (auto simp: append_mem_def Let_def split: if_splits)
  show "\<And>a. a < brk h \<Longrightarrow> \<not> (ptr sl \<le> a \<and> a < ptr sl + cap sl) \<Longrightarrow> mem h' a = mem h a"
    using ok ap by (auto simp: append_mem_def slice_ok_def Let_def split: if_splits)
  show "(ptr sl' = ptr sl \<and> cap sl' = cap sl) \<or> brk h \<le> ptr sl'"
    using ok ap by (auto simp: append_mem_def Let_def split: if_splits)
qed

lemma SetConditions_round_load:
  assumes ok: "slice_ok h sl" and rd: "SetConditions_round slack h sl new = (h', sl')"
  shows "load (mem h') sl' =
           Conditions (SetConditions_one \<lparr>Conditions = load (mem h) sl\<rparr> new)"
    and "slice_ok h' sl'"
    and "brk h \<le> brk h'"
    and "\<And>a. a < brk h \<Longrightarrow> \<not> (ptr sl \<le> a \<and> a < ptr sl + cap sl) \<Longrightarrow> mem h' a = mem h a"
    and "(ptr sl' = ptr sl \<and> cap sl' = cap sl) \<or> brk h \<le> ptr sl'"
proof -
  obtain m ex where sc: "SetConditions_range_mem new sl 0 (mem h) False = (m, ex)"
    by (cases "SetConditions_range_mem new sl 0 (mem h) False")
  note s = SetConditions_range_mem_load[OF sc]
  let ?h1 = "h\<lparr>mem := m\<rparr>"
  have ok1: "slice_ok ?h1 sl"
    using ok by (simp add: slice_ok_def)
  have inside: "\<not> (ptr sl \<le> a \<and> a < ptr sl + cap sl) \<Longrightarrow> m a = mem h a" for a
    using ok s(3)[of a] by (auto simp: slice_ok_def)
  show "load (mem h') sl' =
           Conditions (SetConditions_one \<lparr>Conditions = load (mem h) sl\<rparr> new)"
  proof (cases ex)
    case True
    with rd sc have "h' = ?h1" "sl' = sl"
      by (simp_all add: SetConditions_round_def)
    with True s show ?thesis
      by (simp add: Conditions_one_append)
  next
    case False
    with rd sc have "append_mem slack ?h1 sl new = (h', sl')"
      by (simp add: SetConditions_round_def)
    from append_mem_load(1)[OF ok1 this] False s show ?thesis
      by (simp add: Conditions_one_append)
  qed
  show "slice_ok h' sl'"
  proof (cases ex)
    case True
    with rd sc ok1 show ?thesis by (simp add: SetConditions_round_def)
  next
    case False
    with rd sc have "append_mem slack ?h1 sl new = (h', sl')"
      by (simp add: SetConditions_round_def)
    from append_mem_load(2)[OF ok1 this] show ?thesis .
  qed
  show "brk h \<le> brk h'"
  proof (cases ex)
    case True
    with rd sc show ?thesis by (auto simp: SetConditions_round_def)
  next
    case False
    with rd sc have "append_mem slack ?h1 sl new = (h', sl')"
      by (simp add: SetConditions_round_def)
    from append_mem_load(3)[OF ok1 this] show ?thesis by simp
  qed
  show "mem h' a = mem h a" if "a < brk h" "\<not> (ptr sl \<le> a \<and> a < ptr sl + cap sl)" for a
  proof (cases ex)
    case True
    with rd sc have "h' = ?h1" by (simp add: SetConditions_round_def)
    with inside[OF that(2)] show ?thesis by simp
  next
    case False
    with rd sc have "append_mem slack ?h1 sl new = (h', sl')"
      by (simp add: SetConditions_round_def)
    from append_mem_load(4)[OF ok1 this, of a] that inside[OF that(2)] show ?thesis by simp
  qed
  show "(ptr sl' = ptr sl \<and> cap sl' = cap sl) \<or> brk h \<le> ptr sl'"
  proof (cases ex)
    case True
    with rd sc show ?thesis by (auto simp: SetConditions_round_def)
  next
    case False
    with rd sc have "append_mem slack ?h1 sl new = (h', sl')"
      by (simp add: SetConditions_round_def)
    from append_mem_load(5)[OF ok1 this] show ?thesis by simp
  qed
qed

lemma SetConditions_one_record:
  "SetConditions_one \<lparr>Conditions = xs\<rparr> new =
     \<lparr>Conditions = Conditions (SetConditions_one \<lparr>Conditions = xs\<rparr> new)\<rparr>"
  by (subst SetConditions_one_update) simp

lemma SetConditions_record:
  "SetConditions \<lparr>Conditions = xs\<rparr> c = \<lparr>Conditions = Conditions (SetConditions \<lparr>Conditions = xs\<rparr> c)\<rparr>"
  by (subst SetConditions_update) simp

text \<open>
  Whatever the two slices share, the call is the merge of the conditions that its rounds
  read, and the first of them is the first argument as it stood at the call.
\<close>

lemma SetConditions_mem_from_reads:
  "slice_ok h sl \<Longrightarrow> SetConditions_mem_from slack c k h sl = (h', sl') \<Longrightarrow>
   \<exists>args. length args = len c - k \<and>
     (k < len c \<longrightarrow> hd args = mem h (ptr c + k)) \<and>
     load (mem h') sl' = Conditions (SetConditions \<lparr>Conditions = load (mem h) sl\<rparr> args) \<and>
     slice_ok h' sl'"
proof (induction slack c k h sl rule: SetConditions_mem_from.induct)
  case (1 slack c k h sl)
  show ?case
  proof (cases "k < len c")
    case False
    with "1.prems" have "h' = h" "sl' = sl"
      by (subst (asm) SetConditions_mem_from.simps, simp)+
    with False "1.prems"(1) show ?thesis
      by (intro exI[of _ "[]"]) simp
  next
    case True
    let ?new = "mem h (ptr c + k)"
    obtain h1 sl1 where rd: "SetConditions_round slack h sl ?new = (h1, sl1)"
      by (cases "SetConditions_round slack h sl ?new")
    note r = SetConditions_round_load[OF "1.prems"(1) rd]
    from "1.prems"(2) True rd have rest: "SetConditions_mem_from slack c (k + 1) h1 sl1 = (h', sl')"
      by (subst (asm) SetConditions_mem_from.simps) simp
    from "1.IH"[OF True refl rd[symmetric] r(2) rest]
    obtain args where a: "length args = len c - (k + 1)"
      and l: "load (mem h') sl' = Conditions (SetConditions \<lparr>Conditions = load (mem h1) sl1\<rparr> args)"
      and o: "slice_ok h' sl'" by blast
    have "load (mem h') sl' =
        Conditions (SetConditions (SetConditions_one \<lparr>Conditions = load (mem h) sl\<rparr> ?new) args)"
      unfolding l r(1) by (subst (2) SetConditions_one_record) simp
    with a o True show ?thesis
      by (intro exI[of _ "?new # args"]) simp
  qed
qed

text \<open>
  So a call with a single argument is the merge on values whatever the two slices share,
  and a call on any slices keeps a status with at most one condition of each type so.
\<close>

lemma SetConditions_mem_single:
  assumes "slice_ok h conds" and "len c = 1"
  shows "SetConditions_result slack h conds c =
     Conditions (SetConditions \<lparr>Conditions = load (mem h) conds\<rparr> [mem h (ptr c)])"
proof -
  obtain h' conds' where r: "SetConditions_mem_from slack c 0 h conds = (h', conds')"
    by (cases "SetConditions_mem_from slack c 0 h conds")
  from SetConditions_mem_from_reads[OF assms(1) r] obtain args where
    a: "length args = len c - 0" "0 < len c \<longrightarrow> hd args = mem h (ptr c + 0)"
    and l: "load (mem h') conds' = Conditions (SetConditions \<lparr>Conditions = load (mem h) conds\<rparr> args)"
    by auto
  from a assms(2) have "args = [mem h (ptr c)]"
    by (cases args) simp_all
  with l r show ?thesis
    by (simp add: SetConditions_result_def SetConditions_mem_def)
qed

lemma SetConditions_mem_one_per_Type:
  assumes "slice_ok h conds" and "distinct (map Type (load (mem h) conds))"
  shows "distinct (map Type (SetConditions_result slack h conds c))"
proof -
  obtain h' conds' where r: "SetConditions_mem_from slack c 0 h conds = (h', conds')"
    by (cases "SetConditions_mem_from slack c 0 h conds")
  from SetConditions_mem_from_reads[OF assms(1) r] obtain args where
    l: "load (mem h') conds' = Conditions (SetConditions \<lparr>Conditions = load (mem h) conds\<rparr> args)"
    by blast
  have "one_per_Type \<lparr>Conditions = load (mem h) conds\<rparr>"
    using assms(2) by (simp add: one_per_Type_def)
  then have "one_per_Type (SetConditions \<lparr>Conditions = load (mem h) conds\<rparr> args)"
    by (rule one_per_Type_SetConditions)
  with l r show ?thesis
    by (simp add: SetConditions_result_def SetConditions_mem_def one_per_Type_def)
qed

text \<open>
  When the argument slice shares no storage with the status, the rounds read the
  arguments as they stood at the call, and the call leaves them as they were.
\<close>

lemma SetConditions_mem_from_apart:
  "slices_apart h sl c \<Longrightarrow> SetConditions_mem_from slack c k h sl = (h', sl') \<Longrightarrow>
   load (mem h') sl' =
     Conditions (SetConditions \<lparr>Conditions = load (mem h) sl\<rparr> (drop k (load (mem h) c))) \<and>
   load (mem h') c = load (mem h) c \<and>
   slices_apart h' sl' c"
proof (induction slack c k h sl rule: SetConditions_mem_from.induct)
  case (1 slack c k h sl)
  show ?case
  proof (cases "k < len c")
    case False
    with "1.prems" have "h' = h" "sl' = sl"
      by (subst (asm) SetConditions_mem_from.simps, simp)+
    with False "1.prems"(1) show ?thesis
      by (simp add: length_load)
  next
    case True
    let ?new = "mem h (ptr c + k)"
    obtain h1 sl1 where rd: "SetConditions_round slack h sl ?new = (h1, sl1)"
      by (cases "SetConditions_round slack h sl ?new")
    from "1.prems"(1) have ok: "slice_ok h sl" and cb: "ptr c + len c \<le> brk h"
      and dj: "ptr c + len c \<le> ptr sl \<or> ptr sl + cap sl \<le> ptr c"
      by (simp_all add: slices_apart_def)
    note r = SetConditions_round_load[OF ok rd]
    have same: "mem h1 a = mem h a" if "ptr c \<le> a" "a < ptr c + len c" for a
      using r(4)[of a] that cb dj by auto
    then have lc: "load (mem h1) c = load (mem h) c"
      by (rule load_cong)
    have ap1: "slices_apart h1 sl1 c"
      using r(2) r(3) r(5) cb dj by (auto simp: slices_apart_def)
    from "1.prems"(2) True rd have rest: "SetConditions_mem_from slack c (k + 1) h1 sl1 = (h', sl')"
      by (subst (asm) SetConditions_mem_from.simps) simp
    from "1.IH"[OF True refl rd[symmetric] ap1 rest]
    have l: "load (mem h') sl' =
        Conditions (SetConditions \<lparr>Conditions = load (mem h1) sl1\<rparr> (drop (k + 1) (load (mem h1) c)))"
      and c': "load (mem h') c = load (mem h1) c" and ap': "slices_apart h' sl' c"
      by simp_all
    have dr: "drop k (load (mem h) c) = ?new # drop (k + 1) (load (mem h) c)"
      using True by (simp add: Cons_nth_drop_Suc[symmetric] length_load load_nth)
    have "load (mem h') sl' =
        Conditions (SetConditions (SetConditions_one \<lparr>Conditions = load (mem h) sl\<rparr> ?new)
          (drop (k + 1) (load (mem h) c)))"
      unfolding l r(1) lc by (subst (2) SetConditions_one_record) simp
    with c' lc ap' dr show ?thesis by simp
  qed
qed

lemma SetConditions_result_apart:
  assumes "slices_apart h conds c"
  shows "SetConditions_result slack h conds c =
     Conditions (SetConditions \<lparr>Conditions = load (mem h) conds\<rparr> (load (mem h) c))"
proof -
  obtain h' conds' where r: "SetConditions_mem_from slack c 0 h conds = (h', conds')"
    by (cases "SetConditions_mem_from slack c 0 h conds")
  from SetConditions_mem_from_apart[OF assms r] r show ?thesis
    by (simp add: SetConditions_result_def SetConditions_mem_def)
qed

lemma slices_apart_front:
  "slices_apart h conds c \<Longrightarrow> k \<le> len c \<Longrightarrow> slices_apart h conds (c\<lparr>len := k\<rparr>)"
  by (auto simp: slices_apart_def)

lemma load_front: "k \<le> len c \<Longrightarrow> load m (c\<lparr>len := k\<rparr>) = take k (load m c)"
  by (simp add: load_def take_map)

text \<open>The last argument of a type, on values.\<close>

lemma SetConditions_last:
  assumes post: "\<forall>d \<in> set post. Type d \<noteq> Type l"
  shows "length (Conditions (SetConditions s pre)) \<le>
        length (Conditions (SetConditions s (pre @ l # post))) \<and>
      (\<forall>i < length (Conditions (SetConditions s pre)).
         Type (Conditions (SetConditions s pre) ! i) = Type l \<longrightarrow>
         Conditions (SetConditions s (pre @ l # post)) ! i =
           (if Condition_Equal (Conditions (SetConditions s pre) ! i) l
            then Conditions (SetConditions s pre) ! i else l)) \<and>
      ((\<forall>e \<in> set (Conditions (SetConditions s pre)). Type e \<noteq> Type l) \<longrightarrow>
         length (Conditions (SetConditions s pre)) <
           length (Conditions (SetConditions s (pre @ l # post))) \<and>
         Conditions (SetConditions s (pre @ l # post)) ! length (Conditions (SetConditions s pre)) = l)"
proof -
  let ?mid = "SetConditions s pre"
  let ?t = "SetConditions_one ?mid l"
  let ?r = "SetConditions s (pre @ l # post)"
  have r: "?r = SetConditions ?t post"
    by (simp add: SetConditions_append)
  obtain extra where ex: "Conditions ?r = map (settle_all post) (Conditions ?t) @ extra"
    using SetConditions_front[of ?t post] r by auto
  have t: "Conditions ?t = map (settle l) (Conditions ?mid) @
     (if \<exists>e \<in> set (Conditions ?mid). Type e = Type l then [] else [l])"
    by (rule Conditions_one_append)
  have len: "length (Conditions ?mid) \<le> length (Conditions ?r)"
    by (simp add: ex t)
  have old: "Conditions ?r ! i =
      (if Condition_Equal (Conditions ?mid ! i) l then Conditions ?mid ! i else l)"
    if i: "i < length (Conditions ?mid)" and ty: "Type (Conditions ?mid ! i) = Type l" for i
  proof -
    have "Conditions ?r ! i = settle_all post (settle l (Conditions ?mid ! i))"
      using i by (simp add: ex t nth_append)
    also have "\<dots> = settle l (Conditions ?mid ! i)"
      using post ty by (intro settle_all_other) (simp add: Type_settle)
    finally show ?thesis using ty by (simp add: settle_def)
  qed
  have new: "length (Conditions ?mid) < length (Conditions ?r) \<and>
      Conditions ?r ! length (Conditions ?mid) = l"
    if no: "\<forall>e \<in> set (Conditions ?mid). Type e \<noteq> Type l"
  proof -
    from no have t': "Conditions ?t = map (settle l) (Conditions ?mid) @ [l]"
      using t by auto
    have "Conditions ?r ! length (Conditions ?mid) = settle_all post l"
      by (simp add: ex t' nth_append)
    also have "\<dots> = l"
      using post by (intro settle_all_other) simp
    finally show ?thesis by (simp add: ex t')
  qed
  from len old new show ?thesis by blast
qed

text \<open>
  Claim C5, as amended. Let the argument slice share no storage with \<open>s.Conditions\<close>.
  Then the call merges the arguments in their order: its result is that of the rounds of
  the loop on the arguments from the first to the last, and, for every \<open>k\<close>, that of the
  call with the first \<open>k\<close> arguments followed by the rounds on the others. Let the
  argument \<open>k\<close> be the last of its type. Every entry of that type that the arguments
  before it left in place ends as that argument, unless it is \<open>Equal\<close> to it, in which
  case it ends untouched; and when they left no entry of that type, the argument itself
  stands at the position where it was appended. The arguments are as they were when the
  call returns, and the same call again leaves the conditions of the status as the first
  call left them.
\<close>

theorem SetConditions_mem_in_order:
  "slices_apart h conds c \<longrightarrow>
     SetConditions_result slack h conds c =
       Conditions (SetConditions \<lparr>Conditions = load (mem h) conds\<rparr> (load (mem h) c)) \<and>
     (\<forall>k \<le> len c.
        SetConditions_result slack h conds c =
          Conditions (SetConditions
            \<lparr>Conditions = SetConditions_result slack h conds (c\<lparr>len := k\<rparr>)\<rparr>
            (drop k (load (mem h) c)))) \<and>
     (\<forall>k < len c.
        (\<forall>j. k < j \<and> j < len c \<longrightarrow> Type (mem h (ptr c + j)) \<noteq> Type (mem h (ptr c + k))) \<longrightarrow>
        length (SetConditions_result slack h conds (c\<lparr>len := k\<rparr>)) \<le>
          length (SetConditions_result slack h conds c) \<and>
        (\<forall>i < length (SetConditions_result slack h conds (c\<lparr>len := k\<rparr>)).
           Type (SetConditions_result slack h conds (c\<lparr>len := k\<rparr>) ! i) = Type (mem h (ptr c + k)) \<longrightarrow>
           SetConditions_result slack h conds c ! i =
             (if Condition_Equal (SetConditions_result slack h conds (c\<lparr>len := k\<rparr>) ! i)
                   (mem h (ptr c + k))
              then SetConditions_result slack h conds (c\<lparr>len := k\<rparr>) ! i
              else mem h (ptr c + k))) \<and>
        ((\<forall>e \<in> set (SetConditions_result slack h conds (c\<lparr>len := k\<rparr>)).
            Type e \<noteq> Type (mem h (ptr c + k))) \<longrightarrow>
           length (SetConditions_result slack h conds (c\<lparr>len := k\<rparr>)) <
             length (SetConditions_result slack h conds c) \<and>
           SetConditions_result slack h conds c !
             length (SetConditions_result slack h conds (c\<lparr>len := k\<rparr>)) = mem h (ptr c + k))) \<and>
     (case SetConditions_mem slack h conds c of
        (h', conds') \<Rightarrow>
          load (mem h') c = load (mem h) c \<and>
          SetConditions_result slack h' conds' c = SetConditions_result slack h conds c)"
proof
  assume ap: "slices_apart h conds c"
  let ?s = "\<lparr>Conditions = load (mem h) conds\<rparr>"
  let ?args = "load (mem h) c"
  let ?r = "SetConditions_result slack h conds c"
  let ?front = "\<lambda>k. SetConditions_result slack h conds (c\<lparr>len := k\<rparr>)"
  have whole: "?r = Conditions (SetConditions ?s ?args)"
    using ap by (rule SetConditions_result_apart)
  have front: "?front k = Conditions (SetConditions ?s (take k ?args))" if "k \<le> len c" for k
    using SetConditions_result_apart[OF slices_apart_front[OF ap that], of slack] that
    by (simp add: load_front)
  have order: "?r = Conditions (SetConditions \<lparr>Conditions = ?front k\<rparr> (drop k ?args))"
    if "k \<le> len c" for k
  proof -
    have "?r = Conditions (SetConditions ?s (take k ?args @ drop k ?args))"
      using whole by simp
    also have "\<dots> = Conditions (SetConditions (SetConditions ?s (take k ?args)) (drop k ?args))"
      by (simp only: SetConditions_append)
    also have "SetConditions ?s (take k ?args) = \<lparr>Conditions = ?front k\<rparr>"
      unfolding front[OF that] by (rule SetConditions_record)
    finally show ?thesis .
  qed
  have last: "length (?front k) \<le> length ?r \<and>
      (\<forall>i < length (?front k).
         Type (?front k ! i) = Type (mem h (ptr c + k)) \<longrightarrow>
         ?r ! i = (if Condition_Equal (?front k ! i) (mem h (ptr c + k))
                   then ?front k ! i else mem h (ptr c + k))) \<and>
      ((\<forall>e \<in> set (?front k). Type e \<noteq> Type (mem h (ptr c + k))) \<longrightarrow>
         length (?front k) < length ?r \<and> ?r ! length (?front k) = mem h (ptr c + k))"
    if k: "k < len c"
      and late: "\<forall>j. k < j \<and> j < len c \<longrightarrow> Type (mem h (ptr c + j)) \<noteq> Type (mem h (ptr c + k))"
    for k
  proof -
    let ?l = "mem h (ptr c + k)"
    have l: "?args ! k = ?l"
      using k by (simp add: load_nth)
    have split: "?args = take k ?args @ ?l # drop (Suc k) ?args"
      using k l by (metis id_take_nth_drop length_load)
    have post: "\<forall>d \<in> set (drop (Suc k) ?args). Type d \<noteq> Type ?l"
    proof
      fix d
      assume "d \<in> set (drop (Suc k) ?args)"
      then obtain n where n: "n < length (drop (Suc k) ?args)" and d: "d = drop (Suc k) ?args ! n"
        by (metis in_set_conv_nth)
      from n have b: "Suc k + n < len c"
        by (simp add: length_load)
      with d have d': "d = mem h (ptr c + (Suc k + n))"
        by (simp add: length_load load_nth)
      from late b have "Type (mem h (ptr c + (Suc k + n))) \<noteq> Type ?l"
        by (intro late[rule_format]) simp
      with d' show "Type d \<noteq> Type ?l" by simp
    qed
    from SetConditions_last[OF post, of ?s "take k ?args"] show ?thesis
      using split whole front[of k] k by simp
  qed
  obtain h' conds' where run: "SetConditions_mem slack h conds c = (h', conds')"
    by (cases "SetConditions_mem slack h conds c")
  then have run': "SetConditions_mem_from slack c 0 h conds = (h', conds')"
    by (simp add: SetConditions_mem_def)
  note after = SetConditions_mem_from_apart[OF ap run']
  have again: "SetConditions_result slack h' conds' c = ?r"
  proof -
    from after have "load (mem h') conds' = Conditions (SetConditions ?s ?args)"
      and args: "load (mem h') c = ?args" and ap': "slices_apart h' conds' c"
      by simp_all
    then have "SetConditions_result slack h' conds' c =
        Conditions (SetConditions \<lparr>Conditions = Conditions (SetConditions ?s ?args)\<rparr> ?args)"
      using SetConditions_result_apart[OF ap', of slack] by simp
    also have "\<lparr>Conditions = Conditions (SetConditions ?s ?args)\<rparr> = SetConditions ?s ?args"
      by (rule SetConditions_record[symmetric])
    also have "SetConditions (SetConditions ?s ?args) ?args = SetConditions ?s ?args"
      by (rule SetConditions_idem)
    finally show ?thesis using whole by simp
  qed
  show "?r = Conditions (SetConditions ?s ?args) \<and>
     (\<forall>k \<le> len c. ?r = Conditions (SetConditions \<lparr>Conditions = ?front k\<rparr> (drop k ?args))) \<and>
     (\<forall>k < len c.
        (\<forall>j. k < j \<and> j < len c \<longrightarrow> Type (mem h (ptr c + j)) \<noteq> Type (mem h (ptr c + k))) \<longrightarrow>
        length (?front k) \<le> length ?r \<and>
        (\<forall>i < length (?front k).
           Type (?front k ! i) = Type (mem h (ptr c + k)) \<longrightarrow>
           ?r ! i = (if Condition_Equal (?front k ! i) (mem h (ptr c + k))
                     then ?front k ! i else mem h (ptr c + k))) \<and>
        ((\<forall>e \<in> set (?front k). Type e \<noteq> Type (mem h (ptr c + k))) \<longrightarrow>
           length (?front k) < length ?r \<and> ?r ! length (?front k) = mem h (ptr c + k))) \<and>
     (case SetConditions_mem slack h conds c of
        (h', conds') \<Rightarrow> load (mem h') c = load (mem h) c \<and>
          SetConditions_result slack h' conds' c = ?r)"
    using whole order last again after run by simp
qed

text \<open>
  C5 in the memory \<open>apart\<close>: the status of two conditions and three arguments, of which
  the second is the last of type Ready. It stands in place of the Ready entry, and the
  Synced entry keeps the time stamp 7.
\<close>

theorem SetConditions_mem_in_order_witness:
  "slices_apart apart \<lparr>ptr = 0, len = 2, cap = 2\<rparr> \<lparr>ptr = 2, len = 3, cap = 3\<rparr> \<and>
   SetConditions_result (\<lambda>n. n) apart \<lparr>ptr = 0, len = 2, cap = 2\<rparr> \<lparr>ptr = 2, len = 3, cap = 3\<rparr> ! 0
     = ready_at 10 ''y'' \<and>
   SetConditions_result (\<lambda>n. n) apart \<lparr>ptr = 0, len = 2, cap = 2\<rparr> \<lparr>ptr = 2, len = 3, cap = 3\<rparr>
     = [ready_at 10 ''y'', synced_at 7]"
proof -
  let ?s = "\<lparr>ptr = 0, len = 2, cap = 2\<rparr>"
  let ?c = "\<lparr>ptr = 2, len = 3, cap = 3\<rparr>"
  have ap: "slices_apart apart ?s ?c"
    by (simp add: slices_apart_def slice_ok_def apart_def)
  have args: "load (mem apart) ?c = [ready_at 9 ''x'', ready_at 10 ''y'', synced_at 8]"
    by code_simp
  have conds: "load (mem apart) ?s = [ready_at 5 [], synced_at 7]"
    by code_simp
  have front: "SetConditions_result (\<lambda>n. n) apart ?s (?c\<lparr>len := 1\<rparr>) = [ready_at 9 ''x'', synced_at 7]"
    by code_simp
  have l: "mem apart (ptr ?c + 1) = ready_at 10 ''y''"
    by (simp add: apart_def)
  have late: "\<forall>j. 1 < j \<and> j < len ?c \<longrightarrow>
      Type (mem apart (ptr ?c + j)) \<noteq> Type (mem apart (ptr ?c + 1))"
  proof (intro allI impI)
    fix j :: nat
    assume "1 < j \<and> j < len ?c"
    then have "j = 2" by simp
    then show "Type (mem apart (ptr ?c + j)) \<noteq> Type (mem apart (ptr ?c + 1))"
      by (simp add: apart_def ready_at_def synced_at_def)
  qed
  note t = SetConditions_mem_in_order [of apart ?s ?c "\<lambda>n. n", rule_format, OF ap]
  from t have whole: "SetConditions_result (\<lambda>n. n) apart ?s ?c =
      Conditions (SetConditions \<lparr>Conditions = load (mem apart) ?s\<rparr> (load (mem apart) ?c))"
    by blast
  have "1 < len ?c" by simp
  with t late have "\<forall>i < length (SetConditions_result (\<lambda>n. n) apart ?s (?c\<lparr>len := 1\<rparr>)).
      Type (SetConditions_result (\<lambda>n. n) apart ?s (?c\<lparr>len := 1\<rparr>) ! i) = Type (mem apart (ptr ?c + 1)) \<longrightarrow>
      SetConditions_result (\<lambda>n. n) apart ?s ?c ! i =
        (if Condition_Equal (SetConditions_result (\<lambda>n. n) apart ?s (?c\<lparr>len := 1\<rparr>) ! i)
              (mem apart (ptr ?c + 1))
         then SetConditions_result (\<lambda>n. n) apart ?s (?c\<lparr>len := 1\<rparr>) ! i
         else mem apart (ptr ?c + 1))"
    by blast
  then have first: "SetConditions_result (\<lambda>n. n) apart ?s ?c ! 0 = ready_at 10 ''y''"
    unfolding front l by (simp add: ready_at_def Condition_Equal_def)
  have "SetConditions_result (\<lambda>n. n) apart ?s ?c = [ready_at 10 ''y'', synced_at 7]"
    unfolding whole args conds
    by (simp add: Conditions_SetConditions_one settle_def ready_at_def synced_at_def
        Condition_Equal_def)
  with ap first show ?thesis by simp
qed

text \<open>
  Claim C5 as first stated fails when the argument slice shares storage with the status.
  In the memory \<open>shared\<close> the status holds the one condition \<open>y\<close> at address 1 and the
  arguments are the conditions \<open>x\<close> and \<open>y\<close> at the addresses 0 and 1, both of type Ready
  and not \<open>Equal\<close>. The round for \<open>x\<close> writes \<open>x\<close> to address 1, which is also the second
  argument; the round for the second argument then reads \<open>x\<close>. The status ends holding
  \<open>x\<close>, not \<open>y\<close>, the last argument of the call. The last line is the call with the
  status's own slice as argument on the two conditions: it ends with \<open>x\<close> twice.
\<close>

theorem SetConditions_shared_counterexample:
  "load (mem shared) \<lparr>ptr = 1, len = 1, cap = 1\<rparr> = [ready_at 2 ''y''] \<and>
   load (mem shared) \<lparr>ptr = 0, len = 2, cap = 2\<rparr> = [ready_at 1 ''x'', ready_at 2 ''y''] \<and>
   Type (ready_at 1 ''x'') = Type (ready_at 2 ''y'') \<and>
   SetConditions_result (\<lambda>n. 0) shared \<lparr>ptr = 1, len = 1, cap = 1\<rparr> \<lparr>ptr = 0, len = 1, cap = 2\<rparr>
     = [ready_at 1 ''x''] \<and>
   \<not> Condition_Equal (ready_at 1 ''x'') (ready_at 2 ''y'') \<and>
   SetConditions_result (\<lambda>n. 0) shared \<lparr>ptr = 1, len = 1, cap = 1\<rparr> \<lparr>ptr = 0, len = 2, cap = 2\<rparr>
     = [ready_at 1 ''x''] \<and>
   ready_at 1 ''x'' \<noteq> ready_at 2 ''y'' \<and>
   SetConditions_result (\<lambda>n. 0) shared \<lparr>ptr = 0, len = 2, cap = 2\<rparr> \<lparr>ptr = 0, len = 2, cap = 2\<rparr>
     = [ready_at 1 ''x'', ready_at 1 ''x'']"
  by code_simp

section \<open>Reading a condition: GetCondition\<close>

lemma GetCondition_range_absent:
  "\<forall>c \<in> set cs. Type c \<noteq> ct \<Longrightarrow>
   GetCondition_range cs ct =
     \<lparr>Type = ct, Status = ConditionUnknown, ObservedGeneration = 0,
      LastTransitionTime = 0, Reason = [], Message = []\<rparr>"
  by (induction cs) simp_all

lemma GetCondition_range_find:
  "\<exists>c \<in> set cs. Type c = ct \<Longrightarrow>
   find (\<lambda>c. Type c = ct) cs = Some (GetCondition_range cs ct)"
  by (induction cs) auto

text \<open>
  Claim C3. For a type \<open>t\<close> that no stored condition has, \<open>GetCondition\<close> returns exactly
  the condition of type \<open>t\<close> and status Unknown whose other fields are empty, and that
  value is not \<open>IsEmpty\<close>; the zero condition is \<open>IsEmpty\<close>. For a type that is present,
  \<open>GetCondition\<close> returns the stored condition of that type (the first one).
\<close>

theorem GetCondition_absent_present:
  "((\<forall>c \<in> set (Conditions s). Type c \<noteq> t) \<longrightarrow>
      GetCondition s t =
        \<lparr>Type = t, Status = ''Unknown'', ObservedGeneration = 0,
         LastTransitionTime = 0, Reason = [], Message = []\<rparr> \<and>
      \<not> IsEmpty (GetCondition s t)) \<and>
   IsEmpty Condition_zero \<and>
   ((\<exists>c \<in> set (Conditions s). Type c = t) \<longrightarrow>
      find (\<lambda>c. Type c = t) (Conditions s) = Some (GetCondition s t) \<and>
      GetCondition s t \<in> set (Conditions s) \<and>
      Type (GetCondition s t) = t)"
proof -
  have "find (\<lambda>c. Type c = t) (Conditions s) = Some (GetCondition s t) \<and>
      GetCondition s t \<in> set (Conditions s) \<and> Type (GetCondition s t) = t"
    if "\<exists>c \<in> set (Conditions s). Type c = t"
  proof -
    from that have f: "find (\<lambda>c. Type c = t) (Conditions s) = Some (GetCondition s t)"
      by (simp add: GetCondition_def GetCondition_range_find)
    then show ?thesis
      by (auto simp: find_Some_iff)
  qed
  moreover have "GetCondition s t =
        \<lparr>Type = t, Status = ''Unknown'', ObservedGeneration = 0,
         LastTransitionTime = 0, Reason = [], Message = []\<rparr> \<and>
      \<not> IsEmpty (GetCondition s t)"
    if "\<forall>c \<in> set (Conditions s). Type c \<noteq> t"
    using that
    by (simp add: GetCondition_def GetCondition_range_absent ConditionUnknown_def IsEmpty_def)
  moreover have "IsEmpty Condition_zero"
    by (simp add: IsEmpty_def Condition_zero_def)
  ultimately show ?thesis by blast
qed

text \<open>
  C3 on concrete statuses: an absent type, the empty type (the status Unknown alone keeps
  the result from being \<open>IsEmpty\<close>), and a present type.
\<close>

theorem GetCondition_absent_present_witness:
  "GetCondition \<lparr>Conditions = [ready_at 5 []]\<rparr> ''Synced'' =
     \<lparr>Type = ''Synced'', Status = ''Unknown'', ObservedGeneration = 0,
      LastTransitionTime = 0, Reason = [], Message = []\<rparr> \<and>
   \<not> IsEmpty (GetCondition \<lparr>Conditions = [ready_at 5 []]\<rparr> ''Synced'') \<and>
   \<not> IsEmpty (GetCondition \<lparr>Conditions = [ready_at 5 []]\<rparr> []) \<and>
   GetCondition \<lparr>Conditions = [ready_at 5 [], synced_at 7]\<rparr> ''Synced'' = synced_at 7"
  using GetCondition_absent_present [of "\<lparr>Conditions = [ready_at 5 []]\<rparr>" "''Synced''"]
    GetCondition_absent_present [of "\<lparr>Conditions = [ready_at 5 []]\<rparr>" "[]"]
    GetCondition_absent_present [of "\<lparr>Conditions = [ready_at 5 [], synced_at 7]\<rparr>" "''Synced''"]
  by (auto simp: ready_at_def synced_at_def)

section \<open>Equality of statuses: ConditionedStatus.Equal\<close>

lemma mset_sink: "mset (sink lessf x r) = add_mset x (mset r)"
  by (induction r) simp_all

lemma mset_sink_all:
  "mset (foldl (\<lambda>front x. sink lessf x front) acc xs) = mset acc + mset xs"
  by (induction xs arbitrary: acc) (simp_all add: mset_sink)

lemma mset_insertionSort: "mset (insertionSort lessf xs) = mset xs"
  by (simp add: insertionSort_def mset_sink_all)

lemma set_sink: "set (sink lessf x r) = insert x (set r)"
  using mset_sink[of lessf x r] by (metis set_mset_mset set_mset_add_mset_insert)

lemma sorted_sink:
  fixes f :: "'a \<Rightarrow> 'k::linorder"
  shows "sorted (rev (map f r)) \<Longrightarrow> sorted (rev (map f (sink (\<lambda>a b. f a < f b) x r)))"
proof (induction r)
  case Nil
  show ?case by simp
next
  case (Cons y ys)
  then show ?case
    by (auto simp: sorted_append set_sink less_imp_le)
qed

lemma sorted_sink_all:
  fixes f :: "'a \<Rightarrow> 'k::linorder"
  shows "sorted (rev (map f acc)) \<Longrightarrow>
    sorted (rev (map f (foldl (\<lambda>front x. sink (\<lambda>a b. f a < f b) x front) acc xs)))"
  by (induction xs arbitrary: acc) (simp_all add: sorted_sink)

lemma sorted_insertionSort:
  fixes f :: "'a \<Rightarrow> 'k::linorder"
  shows "sorted (map f (insertionSort (\<lambda>a b. f a < f b) xs))"
  using sorted_sink_all[of f "[]" xs] by (simp add: insertionSort_def flip: rev_map)

lemma sorted_wrt_key:
  fixes f :: "'a \<Rightarrow> 'k::linorder"
  shows "sorted_wrt (\<lambda>a b. \<not> f b < f a) xs \<longleftrightarrow> sorted (map f xs)"
  by (simp add: sorted_map not_less)

lemma sorts_insertionSort:
  fixes f :: "'a \<Rightarrow> 'k::linorder"
  shows "sorts insertionSort (\<lambda>a b. f a < f b)"
  by (simp add: sorts_def mset_insertionSort sorted_wrt_key sorted_insertionSort)

lemma sorts_mset: "sorts srt lessf \<Longrightarrow> mset (srt lessf xs) = mset xs"
  by (simp add: sorts_def)

lemma sorts_length: "sorts srt lessf \<Longrightarrow> length (srt lessf xs) = length xs"
  using sorts_mset[of srt lessf xs] by (metis size_mset)

lemma sorts_sorted:
  fixes f :: "'a \<Rightarrow> 'k::linorder"
  shows "sorts srt (\<lambda>a b. f a < f b) \<Longrightarrow> sorted (map f (srt (\<lambda>a b. f a < f b) xs))"
  by (simp add: sorts_def flip: sorted_wrt_key)

text \<open>With pairwise distinct keys there is one sorted arrangement.\<close>

lemma sorted_arrangement_unique:
  fixes f :: "'a \<Rightarrow> 'k::linorder"
  assumes d: "distinct (map f xs)" and m: "mset ys = mset xs"
    and sy: "sorted (map f ys)" and sx: "sorted (map f xs)"
  shows "ys = xs"
proof -
  have sets: "set ys = set xs"
    using m by (metis set_mset_mset)
  have inj: "inj_on f (set ys \<union> set xs)"
    using d sets by (simp add: distinct_map)
  have dy: "distinct (map f ys)"
    using d m by (metis mset_map mset_eq_imp_distinct_iff)
  show ?thesis
    using inj sy dy sx d sets by (rule map_sorted_distinct_set_unique)
qed

lemma Condition_Equal_untimed: "Condition_Equal x y \<longleftrightarrow> untimed x = untimed y"
  by (cases x, cases y) (auto simp: Condition_Equal_def untimed_def)

lemma Type_untimed: "Type (untimed c) = Type c"
  by (simp add: untimed_def)

lemma Equal_pairs_untimed:
  "length sc = length oc \<Longrightarrow> Equal_pairs sc oc \<longleftrightarrow> map untimed sc = map untimed oc"
  by (induction sc oc rule: list_induct2) (simp_all add: Condition_Equal_untimed)

lemma ConditionedStatus_Equal_sorted:
  assumes "sorts srt (\<lambda>x y. Type x < Type y)"
  shows "ConditionedStatus_Equal srt (Some a) (Some b) \<longleftrightarrow>
     map untimed (srt (\<lambda>x y. Type x < Type y) (Conditions a)) =
     map untimed (srt (\<lambda>x y. Type x < Type y) (Conditions b))"
proof (cases "length (Conditions b) = length (Conditions a)")
  case True
  then show ?thesis
    by (simp add: ConditionedStatus_Equal_def ConditionedStatus_Equal_call_def
        Equal_pairs_untimed sorts_length[OF assms])
next
  case False
  then have "length (map untimed (srt (\<lambda>x y. Type x < Type y) (Conditions a))) \<noteq>
      length (map untimed (srt (\<lambda>x y. Type x < Type y) (Conditions b)))"
    by (simp add: sorts_length[OF assms])
  then have "map untimed (srt (\<lambda>x y. Type x < Type y) (Conditions a)) \<noteq>
      map untimed (srt (\<lambda>x y. Type x < Type y) (Conditions b))"
    by metis
  with False show ?thesis
    by (simp add: ConditionedStatus_Equal_def ConditionedStatus_Equal_call_def)
qed

lemma ConditionedStatus_Equal_None:
  "ConditionedStatus_Equal srt None other \<longleftrightarrow> other = None"
  "ConditionedStatus_Equal srt s None \<longleftrightarrow> s = None"
  by (auto simp: ConditionedStatus_Equal_def ConditionedStatus_Equal_call_def
      split: option.splits)

lemma ConditionedStatus_Equal_refl: "ConditionedStatus_Equal srt s s"
proof (cases s)
  case None
  then show ?thesis by (simp add: ConditionedStatus_Equal_None)
next
  case (Some a)
  have "Equal_pairs xs xs" for xs
    by (induction xs) (simp_all add: Condition_Equal_def)
  with Some show ?thesis
    by (simp add: ConditionedStatus_Equal_def ConditionedStatus_Equal_call_def)
qed

lemma ConditionedStatus_Equal_sym:
  assumes "sorts srt (\<lambda>x y. Type x < Type y)"
  shows "ConditionedStatus_Equal srt s other = ConditionedStatus_Equal srt other s"
  by (cases s; cases other)
     (auto simp: ConditionedStatus_Equal_None ConditionedStatus_Equal_sorted[OF assms])

text \<open>
  The sorted copy of a status with at most one condition of each type, time stamps
  left out, is the one sorted arrangement of its conditions.
\<close>

lemma untimed_sorted_unique:
  assumes s: "sorts srt (\<lambda>x y. Type x < Type y)"
    and d: "distinct (map Type xs)"
    and m: "mset ys = mset (map untimed xs)"
    and sy: "sorted (map Type ys)"
  shows "ys = map untimed (srt (\<lambda>x y. Type x < Type y) xs)"
proof (rule sorted_arrangement_unique)
  let ?zs = "srt (\<lambda>x y. Type x < Type y) xs"
  have "mset (map Type ?zs) = mset (map Type xs)"
    using sorts_mset[OF s, of xs] by (metis mset_map)
  with d have "distinct (map Type ?zs)"
    by (metis mset_eq_imp_distinct_iff)
  then show "distinct (map Type (map untimed ?zs))"
    by (simp add: o_def Type_untimed)
  show "mset ys = mset (map untimed ?zs)"
    using m sorts_mset[OF s, of xs] by (metis mset_map)
  show "sorted (map Type ys)" by (rule sy)
  show "sorted (map Type (map untimed ?zs))"
    using sorts_sorted[OF s, of xs] by (simp add: o_def Type_untimed)
qed

lemma sorted_untimed_cong:
  assumes s: "sorts srt (\<lambda>x y. Type x < Type y)"
    and d: "distinct (map Type xs)"
    and m: "mset (map untimed ys) = mset (map untimed xs)"
  shows "map untimed (srt (\<lambda>x y. Type x < Type y) ys) =
         map untimed (srt (\<lambda>x y. Type x < Type y) xs)"
proof (rule untimed_sorted_unique[OF s d])
  show "mset (map untimed (srt (\<lambda>x y. Type x < Type y) ys)) = mset (map untimed xs)"
    using m sorts_mset[OF s, of ys] by (metis mset_map)
  show "sorted (map Type (map untimed (srt (\<lambda>x y. Type x < Type y) ys)))"
    using sorts_sorted[OF s, of ys] by (simp add: o_def Type_untimed)
qed

lemma ConditionedStatus_Equal_imp_mset:
  assumes s: "sorts srt (\<lambda>x y. Type x < Type y)"
    and e: "ConditionedStatus_Equal srt (Some a) (Some b)"
  shows "mset (map untimed (Conditions a)) = mset (map untimed (Conditions b))"
proof -
  from e have "mset (map untimed (srt (\<lambda>x y. Type x < Type y) (Conditions a))) =
      mset (map untimed (srt (\<lambda>x y. Type x < Type y) (Conditions b)))"
    by (simp add: ConditionedStatus_Equal_sorted[OF s])
  then show ?thesis
    using sorts_mset[OF s, of "Conditions a"] sorts_mset[OF s, of "Conditions b"]
    by (metis mset_map)
qed

lemma ConditionedStatus_Equal_mset:
  assumes s: "sorts srt (\<lambda>x y. Type x < Type y)" and "one_per_Type a"
  shows "ConditionedStatus_Equal srt (Some a) (Some b) \<longleftrightarrow>
     mset (map untimed (Conditions a)) = mset (map untimed (Conditions b))"
proof
  assume "ConditionedStatus_Equal srt (Some a) (Some b)"
  then show "mset (map untimed (Conditions a)) = mset (map untimed (Conditions b))"
    by (rule ConditionedStatus_Equal_imp_mset[OF s])
next
  assume "mset (map untimed (Conditions a)) = mset (map untimed (Conditions b))"
  then have "map untimed (srt (\<lambda>x y. Type x < Type y) (Conditions b)) =
      map untimed (srt (\<lambda>x y. Type x < Type y) (Conditions a))"
    using assms by (intro sorted_untimed_cong) (simp_all add: one_per_Type_def)
  then show "ConditionedStatus_Equal srt (Some a) (Some b)"
    by (simp add: ConditionedStatus_Equal_sorted[OF s])
qed

lemma ConditionedStatus_Equal_cong:
  assumes s: "sorts srt (\<lambda>x y. Type x < Type y)"
    and "map untimed (srt (\<lambda>x y. Type x < Type y) (Conditions a')) =
      map untimed (srt (\<lambda>x y. Type x < Type y) (Conditions a))"
  shows "ConditionedStatus_Equal srt (Some a') other = ConditionedStatus_Equal srt (Some a) other"
    and "ConditionedStatus_Equal srt other (Some a') = ConditionedStatus_Equal srt other (Some a)"
  using assms(2)
  by (cases other; simp add: ConditionedStatus_Equal_None ConditionedStatus_Equal_sorted[OF s])+

text \<open>
  Claim C4. A \<open>ConditionedStatus\<close> holds at most one condition of each type, and
  \<open>sort.Slice\<close> sorts. \<open>Equal\<close> is true of two nil pointers and false of a nil and a
  non-nil one; of two statuses it is true exactly when the multisets of their
  conditions, time stamps left out, are identical. \<open>Equal\<close> is reflexive and symmetric;
  permuting the condition list of a status does not change the result, and neither does
  a change of time stamps alone, in either argument. The call leaves both statuses as
  they were. (That \<open>Equal\<close> implies identical multisets, that it is reflexive and
  symmetric and that it leaves the statuses alone does not depend on the number of
  conditions of a type.)
\<close>

theorem ConditionedStatus_Equal_multiset:
  "sorts sort_Slice (\<lambda>x y. Type x < Type y) \<longrightarrow>
     ConditionedStatus_Equal sort_Slice None None \<and>
     \<not> ConditionedStatus_Equal sort_Slice None (Some b) \<and>
     \<not> ConditionedStatus_Equal sort_Slice (Some a) None \<and>
     (one_per_Type a \<and> one_per_Type b \<longrightarrow>
        ConditionedStatus_Equal sort_Slice (Some a) (Some b) =
          (mset (map untimed (Conditions a)) = mset (map untimed (Conditions b)))) \<and>
     (ConditionedStatus_Equal sort_Slice (Some a) (Some b) \<longrightarrow>
        mset (map untimed (Conditions a)) = mset (map untimed (Conditions b))) \<and>
     ConditionedStatus_Equal sort_Slice s s \<and>
     ConditionedStatus_Equal sort_Slice s other = ConditionedStatus_Equal sort_Slice other s \<and>
     (one_per_Type a \<and> mset (Conditions a') = mset (Conditions a) \<longrightarrow>
        ConditionedStatus_Equal sort_Slice (Some a') other =
          ConditionedStatus_Equal sort_Slice (Some a) other \<and>
        ConditionedStatus_Equal sort_Slice other (Some a') =
          ConditionedStatus_Equal sort_Slice other (Some a)) \<and>
     (one_per_Type a \<and> map untimed (Conditions a') = map untimed (Conditions a) \<longrightarrow>
        ConditionedStatus_Equal sort_Slice (Some a') other =
          ConditionedStatus_Equal sort_Slice (Some a) other \<and>
        ConditionedStatus_Equal sort_Slice other (Some a') =
          ConditionedStatus_Equal sort_Slice other (Some a)) \<and>
     snd (ConditionedStatus_Equal_call sort_Slice s other) = (s, other)"
proof
  assume s: "sorts sort_Slice (\<lambda>x y. Type x < Type y)"
  have same: "ConditionedStatus_Equal sort_Slice (Some a') other =
        ConditionedStatus_Equal sort_Slice (Some a) other \<and>
      ConditionedStatus_Equal sort_Slice other (Some a') =
        ConditionedStatus_Equal sort_Slice other (Some a)"
    if "one_per_Type a" "mset (map untimed (Conditions a')) = mset (map untimed (Conditions a))"
  proof -
    from that have "map untimed (sort_Slice (\<lambda>x y. Type x < Type y) (Conditions a')) =
        map untimed (sort_Slice (\<lambda>x y. Type x < Type y) (Conditions a))"
      by (intro sorted_untimed_cong[OF s]) (simp_all add: one_per_Type_def)
    then show ?thesis
      using ConditionedStatus_Equal_cong[OF s] by blast
  qed
  have perm: "ConditionedStatus_Equal sort_Slice (Some a') other =
        ConditionedStatus_Equal sort_Slice (Some a) other \<and>
      ConditionedStatus_Equal sort_Slice other (Some a') =
        ConditionedStatus_Equal sort_Slice other (Some a)"
    if "one_per_Type a" "mset (Conditions a') = mset (Conditions a)"
  proof -
    from that(2) have "mset (map untimed (Conditions a')) = mset (map untimed (Conditions a))"
      by (metis mset_map)
    with that(1) show ?thesis by (rule same)
  qed
  have time: "ConditionedStatus_Equal sort_Slice (Some a') other =
        ConditionedStatus_Equal sort_Slice (Some a) other \<and>
      ConditionedStatus_Equal sort_Slice other (Some a') =
        ConditionedStatus_Equal sort_Slice other (Some a)"
    if "one_per_Type a" "map untimed (Conditions a') = map untimed (Conditions a)"
    using that by (intro same) simp_all
  have frame: "snd (ConditionedStatus_Equal_call sort_Slice s other) = (s, other)"
    by (simp add: ConditionedStatus_Equal_call_def Let_def split: option.splits)
  show "ConditionedStatus_Equal sort_Slice None None \<and>
     \<not> ConditionedStatus_Equal sort_Slice None (Some b) \<and>
     \<not> ConditionedStatus_Equal sort_Slice (Some a) None \<and>
     (one_per_Type a \<and> one_per_Type b \<longrightarrow>
        ConditionedStatus_Equal sort_Slice (Some a) (Some b) =
          (mset (map untimed (Conditions a)) = mset (map untimed (Conditions b)))) \<and>
     (ConditionedStatus_Equal sort_Slice (Some a) (Some b) \<longrightarrow>
        mset (map untimed (Conditions a)) = mset (map untimed (Conditions b))) \<and>
     ConditionedStatus_Equal sort_Slice s s \<and>
     ConditionedStatus_Equal sort_Slice s other = ConditionedStatus_Equal sort_Slice other s \<and>
     (one_per_Type a \<and> mset (Conditions a') = mset (Conditions a) \<longrightarrow>
        ConditionedStatus_Equal sort_Slice (Some a') other =
          ConditionedStatus_Equal sort_Slice (Some a) other \<and>
        ConditionedStatus_Equal sort_Slice other (Some a') =
          ConditionedStatus_Equal sort_Slice other (Some a)) \<and>
     (one_per_Type a \<and> map untimed (Conditions a') = map untimed (Conditions a) \<longrightarrow>
        ConditionedStatus_Equal sort_Slice (Some a') other =
          ConditionedStatus_Equal sort_Slice (Some a) other \<and>
        ConditionedStatus_Equal sort_Slice other (Some a') =
          ConditionedStatus_Equal sort_Slice other (Some a)) \<and>
     snd (ConditionedStatus_Equal_call sort_Slice s other) = (s, other)"
    using perm time frame ConditionedStatus_Equal_imp_mset[OF s, of a b]
      ConditionedStatus_Equal_mset[OF s, of a b] ConditionedStatus_Equal_refl[of sort_Slice s]
      ConditionedStatus_Equal_sym[OF s, of s other]
    by (simp add: ConditionedStatus_Equal_None)
qed

text \<open>
  C4 with the insertion sort for \<open>sort.Slice\<close>, on two statuses of the types Ready and
  Synced that differ in order and time stamps.
\<close>

theorem ConditionedStatus_Equal_multiset_witness:
  "sorts insertionSort (\<lambda>x y. Type x < Type y) \<and>
   one_per_Type \<lparr>Conditions = [ready_at 5 [], synced_at 7]\<rparr> \<and>
   one_per_Type \<lparr>Conditions = [synced_at 3, ready_at 9 []]\<rparr> \<and>
   mset (Conditions \<lparr>Conditions = [synced_at 7, ready_at 5 []]\<rparr>) =
     mset (Conditions \<lparr>Conditions = [ready_at 5 [], synced_at 7]\<rparr>) \<and>
   ConditionedStatus_Equal insertionSort (Some \<lparr>Conditions = [ready_at 5 [], synced_at 7]\<rparr>)
     (Some \<lparr>Conditions = [synced_at 3, ready_at 9 []]\<rparr>) \<and>
   ConditionedStatus_Equal insertionSort (Some \<lparr>Conditions = [synced_at 7, ready_at 5 []]\<rparr>)
     (Some \<lparr>Conditions = [synced_at 3, ready_at 9 []]\<rparr>)"
proof -
  let ?a = "\<lparr>Conditions = [ready_at 5 [], synced_at 7]\<rparr>"
  let ?a' = "\<lparr>Conditions = [synced_at 7, ready_at 5 []]\<rparr>"
  let ?b = "\<lparr>Conditions = [synced_at 3, ready_at 9 []]\<rparr>"
  have s: "sorts insertionSort (\<lambda>x y. Type x < Type y)"
    by (rule sorts_insertionSort)
  have a: "one_per_Type ?a" and b: "one_per_Type ?b"
    by (simp_all add: one_per_Type_def ready_at_def synced_at_def)
  have p: "mset (Conditions ?a') = mset (Conditions ?a)"
    by simp
  have m: "mset (map untimed (Conditions ?a)) = mset (map untimed (Conditions ?b))"
    by (simp add: untimed_def ready_at_def synced_at_def)
  note t = ConditionedStatus_Equal_multiset
    [of insertionSort ?b ?a "Some ?a" "Some ?b" ?a', rule_format, OF s]
  from t a b m have e: "ConditionedStatus_Equal insertionSort (Some ?a) (Some ?b)" by blast
  from t a p e have "ConditionedStatus_Equal insertionSort (Some ?a') (Some ?b)" by blast
  with s a b p e show ?thesis by blast
qed

section \<open>Constructors, references and WithMessage\<close>

lemma ReferencesInvalid_range_map:
  "ReferencesInvalid_range acc refs =
     acc @ map (\<lambda>ref. ObjectRef.Namespace ref @ ''/'' @ ObjectRef.Name ref) refs"
  by (induction refs arbitrary: acc)
     (simp_all add: NamespacedName_String_def ObjectRef_ObjectKey_def Separator_def)

lemma strings_Join_Cons:
  "strings_Join (e # elems) sep = e @ concat (map (\<lambda>s. sep @ s) elems)"
  by (cases elems) simp_all

text \<open>
  Claim C6. \<open>ReferencesInvalid\<close> returns a condition of type ReferencesValid, status False
  and the given reason, whose message is the fixed prefix followed by the
  namespace/name coordinates of the missing references in their order, with a comma and
  a space between consecutive ones; the example of the spec is evaluated.
\<close>

theorem ReferencesInvalid_message:
  "Type (ReferencesInvalid now r missingRefs) = ''ReferencesValid'' \<and>
   Status (ReferencesInvalid now r missingRefs) = ''False'' \<and>
   Reason (ReferencesInvalid now r missingRefs) = r \<and>
   LastTransitionTime (ReferencesInvalid now r missingRefs) = now \<and>
   Message (ReferencesInvalid now r []) = ''Referenced objects are not found: '' \<and>
   Message (ReferencesInvalid now r (ref # missingRefs)) =
     ''Referenced objects are not found: '' @
     (ObjectRef.Namespace ref @ ''/'' @ ObjectRef.Name ref) @
     concat (map (\<lambda>m. '', '' @ ObjectRef.Namespace m @ ''/'' @ ObjectRef.Name m) missingRefs) \<and>
   Message (ReferencesInvalid now ''MissingDeps''
       [\<lparr>ObjectRef.Name = ''foo'', ObjectRef.Namespace = ''ns1''\<rparr>,
        \<lparr>ObjectRef.Name = ''bar'', ObjectRef.Namespace = ''ns1''\<rparr>]) =
     ''Referenced objects are not found: ns1/foo, ns1/bar''"
  by (simp add: ReferencesInvalid_def ReferencesInvalid_range_map strings_Join_Cons
      TypeReferencesValid_def ConditionFalse_def o_def)

text \<open>
  Claim C7. On every error value (a non-nil \<open>error\<close>), \<open>ReconcileError\<close> returns, without
  a panic, the condition of type Synced, status False and reason ReconcileError whose
  message is the text of the error, also when that text is empty.
\<close>

theorem ReconcileError_total:
  "ReconcileError now (Some err) =
     Inr \<lparr>Type = ''Synced'', Status = ''False'', ObservedGeneration = 0,
          LastTransitionTime = now, Reason = ''ReconcileError'', Message = Error err\<rparr> \<and>
   ReconcileError now (Some (errors_New [])) =
     Inr \<lparr>Type = ''Synced'', Status = ''False'', ObservedGeneration = 0,
          LastTransitionTime = now, Reason = ''ReconcileError'', Message = []\<rparr>"
  by (simp add: ReconcileError_def TypeSynced_def ConditionFalse_def ReasonReconcileError_def)

text \<open>
  Claim C8. \<open>ObjectKeyNotSet\<close> holds exactly when name and namespace are both empty;
  group, version and kind do not matter. It holds of the zero reference and not of the
  reference whose only field set is the name \<open>x\<close>.
\<close>

theorem ObjectKeyNotSet_iff:
  "ObjectKeyNotSet t = (TypedObjectRef.Name t = [] \<and> TypedObjectRef.Namespace t = []) \<and>
   ObjectKeyNotSet (t\<lparr>TypedObjectRef.Group := g, TypedObjectRef.Version := v,
                      TypedObjectRef.Kind := k\<rparr>) = ObjectKeyNotSet t \<and>
   ObjectKeyNotSet \<lparr>TypedObjectRef.Group = [], TypedObjectRef.Version = [],
     TypedObjectRef.Kind = [], TypedObjectRef.Name = [], TypedObjectRef.Namespace = []\<rparr> \<and>
   \<not> ObjectKeyNotSet \<lparr>TypedObjectRef.Group = [], TypedObjectRef.Version = [],
     TypedObjectRef.Kind = [], TypedObjectRef.Name = ''x'', TypedObjectRef.Namespace = []\<rparr>"
  by (simp add: ObjectKeyNotSet_def)

text \<open>
  Claim C9. The string of a \<open>ClusterObjectRef\<close> is cluster id, namespace and name, in this
  order, with \<open>/\<close> between them. The string of a \<open>TypedObjectRef\<close> is the form
  \<open>Group/Version, Kind=Kind\<close>, then a colon and a space, then \<open>namespace/name\<close>.
\<close>

theorem String_forms:
  "ClusterObjectRef_String c =
     ClusterObjectRef.ClusterID c @ ''/'' @ ClusterObjectRef.Namespace c @ ''/'' @
     ClusterObjectRef.Name c \<and>
   TypedObjectRef_String t =
     (TypedObjectRef.Group t @ ''/'' @ TypedObjectRef.Version t @ '', Kind='' @
      TypedObjectRef.Kind t) @ '': '' @
     (TypedObjectRef.Namespace t @ ''/'' @ TypedObjectRef.Name t)"
  by (simp add: ClusterObjectRef_String_def TypedObjectRef_String_def Separator_def
      GroupVersionKind_String_def NamespacedName_String_def
      TypedObjectRef_GroupVersionKind_def TypedObjectRef_ObjectKey_def)

text \<open>
  Claim C10. \<open>WithMessage\<close> returns a condition with the given message and with every
  other field as in the receiver, and the caller's condition is the same after the call.
\<close>

theorem WithMessage_frame:
  "Message (WithMessage c msg) = msg \<and>
   Type (WithMessage c msg) = Type c \<and>
   Status (WithMessage c msg) = Status c \<and>
   Reason (WithMessage c msg) = Reason c \<and>
   ObservedGeneration (WithMessage c msg) = ObservedGeneration c \<and>
   LastTransitionTime (WithMessage c msg) = LastTransitionTime c \<and>
   WithMessage_call c msg = (c, WithMessage c msg)"
  by (simp add: WithMessage_def WithMessage_call_def)

end
